theory Spec2Isabelle
  imports Main
begin

section \<open>Python strings\<close>

text \<open>
  A Python \<^verbatim>\<open>str\<close> is a sequence of Unicode code points, and \<^verbatim>\<open>len\<close> counts code
  points. A string is therefore modelled as a list of code points (natural numbers), not
  as a list of bytes. A literal of the source is written \<open>lit ''...''\<close>.
\<close>

type_synonym pystr = "nat list"

definition lit :: "string \<Rightarrow> pystr" where
  "lit s = map of_char s"

text \<open>
  The line boundaries of \<^verbatim>\<open>str.splitlines\<close> (CPython: \<^verbatim>\<open>Py_UNICODE_ISLINEBREAK\<close>):
  LF, VT, FF, CR, FS, GS, RS, NEL, LINE SEPARATOR, PARAGRAPH SEPARATOR.
\<close>

definition is_linebreak :: "nat \<Rightarrow> bool" where
  "is_linebreak c = (c \<in> {10, 11, 12, 13, 28, 29, 30, 133, 8232, 8233})"

text \<open>
  What \<^verbatim>\<open>\s\<close> matches in a \<^verbatim>\<open>str\<close> pattern (CPython: \<^verbatim>\<open>Py_UNICODE_ISSPACE\<close>, the
  characters of \<^verbatim>\<open>str.isspace\<close>).
\<close>

definition is_space :: "nat \<Rightarrow> bool" where
  "is_space c = ((9 \<le> c \<and> c \<le> 13) \<or> (28 \<le> c \<and> c \<le> 32) \<or> c = 133 \<or> c = 160
      \<or> c = 5760 \<or> (8192 \<le> c \<and> c \<le> 8202) \<or> c = 8232 \<or> c = 8233 \<or> c = 8239
      \<or> c = 8287 \<or> c = 12288)"

text \<open>\<^verbatim>\<open>str(n)\<close> of an integer, as the f-string \<^verbatim>\<open>{len(line)}\<close> formats it.\<close>

fun decimal :: "nat \<Rightarrow> pystr" where
  "decimal n = (if n < 10 then [48 + n] else decimal (n div 10) @ [48 + n mod 10])"

declare decimal.simps [simp del]

definition str_int :: "int \<Rightarrow> pystr" where
  "str_int i = (if i < 0 then 45 # decimal (nat (- i)) else decimal (nat i))"

text \<open>\<^verbatim>\<open>sub in s\<close> on strings: \<open>sub\<close> occurs in \<open>s\<close> as a contiguous substring.\<close>

fun py_in :: "pystr \<Rightarrow> pystr \<Rightarrow> bool" where
  "py_in sub [] = (sub = [])"
| "py_in sub (c # cs) = (take (length sub) (c # cs) = sub \<or> py_in sub cs)"

text \<open>
  \<^verbatim>\<open>text.splitlines()\<close> without \<^verbatim>\<open>keepends\<close>, following CPython's loop: scan to the next
  line boundary, skip it (CR LF read as one boundary), append the line without its
  terminator, continue behind it. The empty string has no line, and a terminator at the
  very end opens no further line.
\<close>

function splitlines :: "pystr \<Rightarrow> pystr list" where
  "splitlines [] = []"
| "splitlines (c # cs) =
     (let l = takeWhile (\<lambda>x. \<not> is_linebreak x) (c # cs);
          rest = dropWhile (\<lambda>x. \<not> is_linebreak x) (c # cs)
      in case rest of
           [] \<Rightarrow> [l]
         | r # rest' \<Rightarrow>
             (if r = 13 \<and> rest' \<noteq> [] \<and> hd rest' = 10 then l # splitlines (tl rest')
              else l # splitlines rest'))"
  by pat_completeness auto
termination
proof (relation "measure length", goal_cases)
  case 1
  show ?case by simp
next
  case (2 c cs l rest r rest')
  have "length rest \<le> length (c # cs)"
    unfolding 2(2) by (rule length_dropWhile_le)
  with 2(3) have "length rest' < length (c # cs)" by simp
  moreover have "length (tl rest') \<le> length rest'" by simp
  ultimately show ?case by simp
next
  case (3 c cs l rest r rest')
  have "length rest \<le> length (c # cs)"
    unfolding 3(2) by (rule length_dropWhile_le)
  with 3(3) show ?case by simp
qed

declare splitlines.simps(2) [simp del]

section \<open>The regular expression of the bare-except check\<close>

text \<open>
  The constructs that occur in \<^verbatim>\<open>r"^\s*except\s*:\s*$"\<close>: the anchors \<^verbatim>\<open>^\<close> and \<^verbatim>\<open>$\<close>
  (no \<^verbatim>\<open>MULTILINE\<close> flag), the greedy \<^verbatim>\<open>\s*\<close> and literal characters. A pattern is the
  sequence of its items.
\<close>

datatype rx = Caret | Dollar | Star_space | Chr nat

text \<open>
  A backtracking matcher. \<open>rx_match p at_start s\<close>: the pattern \<open>p\<close> matches a prefix of
  the remaining input \<open>s\<close>; \<open>at_start\<close> tells whether \<open>s\<close> is still the whole subject.
  \<^verbatim>\<open>^\<close> matches at the start of the subject only; \<^verbatim>\<open>$\<close> matches at the end of the
  subject and just before a newline that ends it; \<^verbatim>\<open>\s*\<close> first tries to take one more
  whitespace character and otherwise goes on with the rest of the pattern.
\<close>

fun rx_match :: "rx list \<Rightarrow> bool \<Rightarrow> pystr \<Rightarrow> bool" where
  "rx_match [] at_start s = True"
| "rx_match (Caret # p) at_start s = (at_start \<and> rx_match p at_start s)"
| "rx_match (Dollar # p) at_start s = ((s = [] \<or> s = [10]) \<and> rx_match p at_start s)"
| "rx_match (Chr c # p) at_start [] = False"
| "rx_match (Chr c # p) at_start (x # xs) = (x = c \<and> rx_match p False xs)"
| "rx_match (Star_space # p) at_start [] = rx_match p at_start []"
| "rx_match (Star_space # p) at_start (x # xs) =
     ((is_space x \<and> rx_match (Star_space # p) False xs) \<or> rx_match p at_start (x # xs))"

text \<open>\<^verbatim>\<open>re.match(pattern, s)\<close>: a match that begins at the start of \<open>s\<close>.\<close>

definition re_match :: "rx list \<Rightarrow> pystr \<Rightarrow> bool" where
  "re_match p s = rx_match p True s"

definition bare_except_rx :: "rx list" where
  "bare_except_rx =
     [Caret, Star_space] @ map Chr (lit ''except'') @ [Star_space, Chr 58, Star_space, Dollar]"

section \<open>The analyzer\<close>

text \<open>
  The dataclass \<^verbatim>\<open>Issue\<close>. Its field \<^verbatim>\<open>file\<close> is named \<open>file_name\<close> here, since
  \<^verbatim>\<open>file\<close> is a reserved word of the theory language.
\<close>

record Issue =
  file_name :: pystr
  line :: int
  category :: pystr
  message :: pystr
  snippet :: pystr

text \<open>
  One pass of the loop body of \<^verbatim>\<open>detect_issues\<close> for the line \<open>ln\<close> with number \<open>i\<close>:
  four independent checks, each appending to \<open>issues\<close>.
\<close>

definition loop_body :: "pystr \<Rightarrow> int \<Rightarrow> pystr \<Rightarrow> Issue list \<Rightarrow> Issue list" where
  "loop_body filename i ln issues =
     (let issues1 =
            (if int (length ln) > 120
             then issues @ [\<lparr>file_name = filename, line = i, category = lit ''Style'',
                    message = lit ''Line length '' @ str_int (int (length ln))
                              @ lit '' exceeds 120 chars'',
                    snippet = ln\<rparr>]
             else issues);
          issues2 =
            (if py_in (lit ''TODO'') ln
             then issues1 @ [\<lparr>file_name = filename, line = i, category = lit ''Maintainability'',
                    message = lit ''TODO left in code'', snippet = ln\<rparr>]
             else issues1);
          issues3 =
            (if py_in (lit ''print('') ln
             then issues2 @ [\<lparr>file_name = filename, line = i, category = lit ''BestPractice'',
                    message = lit ''Avoid print in library code; prefer logging'',
                    snippet = ln\<rparr>]
             else issues2);
          issues4 =
            (if re_match bare_except_rx ln
             then issues3 @ [\<lparr>file_name = filename, line = i, category = lit ''ErrorHandling'',
                    message = lit ''Bare except detected; catch specific exceptions'',
                    snippet = ln\<rparr>]
             else issues3)
      in issues4)"

text \<open>The loop \<^verbatim>\<open>for i, line in enumerate(lines, start=...)\<close>, the counter passed along.\<close>

fun detect_loop :: "pystr \<Rightarrow> int \<Rightarrow> pystr list \<Rightarrow> Issue list \<Rightarrow> Issue list" where
  "detect_loop filename i [] issues = issues"
| "detect_loop filename i (ln # lns) issues =
     detect_loop filename (i + 1) lns (loop_body filename i ln issues)"

definition detect_issues :: "pystr \<Rightarrow> pystr \<Rightarrow> Issue list" where
  "detect_issues filename text = detect_loop filename 1 (splitlines text) []"

section \<open>Notions used in the statements\<close>

text \<open>
  The definitions whose names begin with \<open>spec_\<close> follow the wording of the specification;
  the theorems compare them with what the code computes.
\<close>

text \<open>The findings one pass of the loop body appends, for the line \<open>ln\<close> numbered \<open>i\<close>.\<close>

definition line_issues :: "pystr \<Rightarrow> int \<Rightarrow> pystr \<Rightarrow> Issue list" where
  "line_issues filename i ln = loop_body filename i ln []"

text \<open>
  The order of the categories as the specification states it: Style, Maintainability,
  BestPractice, ErrorHandling.
\<close>

definition spec_category_rank :: "pystr \<Rightarrow> nat" where
  "spec_category_rank c =
     (if c = lit ''Style'' then 0
      else if c = lit ''Maintainability'' then 1
      else if c = lit ''BestPractice'' then 2
      else if c = lit ''ErrorHandling'' then 3
      else 4)"

text \<open>The four records the source constructs, one per check.\<close>

definition style_issue :: "pystr \<Rightarrow> int \<Rightarrow> pystr \<Rightarrow> Issue" where
  "style_issue filename i ln =
     \<lparr>file_name = filename, line = i, category = lit ''Style'',
      message = lit ''Line length '' @ str_int (int (length ln)) @ lit '' exceeds 120 chars'',
      snippet = ln\<rparr>"

definition todo_issue :: "pystr \<Rightarrow> int \<Rightarrow> pystr \<Rightarrow> Issue" where
  "todo_issue filename i ln =
     \<lparr>file_name = filename, line = i, category = lit ''Maintainability'',
      message = lit ''TODO left in code'', snippet = ln\<rparr>"

definition print_issue :: "pystr \<Rightarrow> int \<Rightarrow> pystr \<Rightarrow> Issue" where
  "print_issue filename i ln =
     \<lparr>file_name = filename, line = i, category = lit ''BestPractice'',
      message = lit ''Avoid print in library code; prefer logging'', snippet = ln\<rparr>"

definition except_issue :: "pystr \<Rightarrow> int \<Rightarrow> pystr \<Rightarrow> Issue" where
  "except_issue filename i ln =
     \<lparr>file_name = filename, line = i, category = lit ''ErrorHandling'',
      message = lit ''Bare except detected; catch specific exceptions'', snippet = ln\<rparr>"

text \<open>
  \<open>finding_before a b\<close>: \<open>a\<close> is on an earlier line than \<open>b\<close>, or on the same line with a
  category that comes earlier in the stated order.
\<close>

definition finding_before :: "Issue \<Rightarrow> Issue \<Rightarrow> bool" where
  "finding_before a b \<longleftrightarrow>
     line a < line b
     \<or> (line a = line b
        \<and> spec_category_rank (category a) < spec_category_rank (category b))"

text \<open>The end-to-end example of the specification.\<close>

definition example_text :: pystr where
  "example_text =
     lit ''x = 1'' @ [10] @ lit ''print('debug')  # TODO fix'' @ [10] @ lit ''except:'' @ [10]"

text \<open>The number a string of decimal digits denotes.\<close>

definition digits_value :: "pystr \<Rightarrow> nat" where
  "digits_value ds = foldl (\<lambda>a d. 10 * a + (d - 48)) 0 ds"

text \<open>
  The segments of a text delimited by the newline character LF alone, read the way that
  favours the analyzer: a newline ends a segment, a text that ends in a newline has no
  further empty segment behind it, and the empty text has no segment.
\<close>

fun spec_newline_segments :: "pystr \<Rightarrow> pystr list" where
  "spec_newline_segments [] = []"
| "spec_newline_segments (c # cs) =
     (if c = 10 then [] # spec_newline_segments cs
      else (case spec_newline_segments cs of [] \<Rightarrow> [[c]] | l # ls \<Rightarrow> (c # l) # ls))"

text \<open>
  A line with its leading and trailing whitespace ignored, and the shape the specification
  gives for a bare catch-all handler: what is left is the keyword \<^verbatim>\<open>except\<close>, followed only
  by whitespace and the colon.
\<close>

definition strip_ws :: "pystr \<Rightarrow> pystr" where
  "strip_ws s = rev (dropWhile is_space (rev (dropWhile is_space s)))"

definition spec_bare_handler :: "pystr \<Rightarrow> bool" where
  "spec_bare_handler ln =
     (let s = strip_ws ln
      in take 6 s = lit ''except'' \<and> dropWhile is_space (drop 6 s) = [58])"

text \<open>
  A text whose only line boundaries are the newline LF and the pair CR LF: every other
  boundary character, a CR that no LF follows included, is absent.
\<close>

fun only_lf_and_crlf :: "pystr \<Rightarrow> bool" where
  "only_lf_and_crlf [] = True"
| "only_lf_and_crlf [c] = (\<not> is_linebreak c \<or> c = 10)"
| "only_lf_and_crlf (c # d # cs) =
     (if c = 13 \<and> d = 10 then only_lf_and_crlf cs
      else (\<not> is_linebreak c \<or> c = 10) \<and> only_lf_and_crlf (d # cs))"

text \<open>
  The number of line boundaries in a text as \<^verbatim>\<open>str.splitlines\<close> documents them: each boundary
  character counts once, and a CR with the LF that follows it counts as one boundary.
\<close>

fun count_line_boundaries :: "pystr \<Rightarrow> nat" where
  "count_line_boundaries [] = 0"
| "count_line_boundaries [c] = (if is_linebreak c then 1 else 0)"
| "count_line_boundaries (c # d # cs) =
     (if c = 13 \<and> d = 10 then Suc (count_line_boundaries cs)
      else if is_linebreak c then Suc (count_line_boundaries (d # cs))
      else count_line_boundaries (d # cs))"

section \<open>Substrings and decimal numerals\<close>

lemma py_in_iff: "py_in sub s \<longleftrightarrow> (\<exists>ps ss. s = ps @ sub @ ss)"
proof (induction s)
  case Nil
  show ?case by simp
next
  case (Cons c cs)
  show ?case
  proof
    assume "py_in sub (c # cs)"
    then consider "take (length sub) (c # cs) = sub" | "py_in sub cs" by auto
    then show "\<exists>ps ss. c # cs = ps @ sub @ ss"
    proof cases
      case 1
      then have "c # cs = [] @ sub @ drop (length sub) (c # cs)"
        by (metis append_Nil append_take_drop_id)
      then show ?thesis by blast
    next
      case 2
      then obtain ps ss where "cs = ps @ sub @ ss" using Cons.IH by blast
      then have "c # cs = (c # ps) @ sub @ ss" by simp
      then show ?thesis by blast
    qed
  next
    assume "\<exists>ps ss. c # cs = ps @ sub @ ss"
    then obtain ps ss where eq: "c # cs = ps @ sub @ ss" by blast
    show "py_in sub (c # cs)"
    proof (cases ps)
      case Nil
      with eq have "take (length sub) (c # cs) = sub" by simp
      then show ?thesis by simp
    next
      case (Cons p ps')
      with eq have "cs = ps' @ sub @ ss" by simp
      then have "py_in sub cs" using Cons.IH by blast
      then show ?thesis by simp
    qed
  qed
qed

lemma py_in_subset: "py_in sub s \<Longrightarrow> set sub \<subseteq> set s"
  by (auto simp: py_in_iff)

lemma str_int_nat: "str_int (int n) = decimal n"
  by (simp add: str_int_def)

lemma digits_value_snoc: "digits_value (ds @ [d]) = 10 * digits_value ds + (d - 48)"
  by (simp add: digits_value_def)

lemma digits_value_decimal: "digits_value (decimal n) = n"
proof (induction n rule: decimal.induct)
  case (1 n)
  show ?case
  proof (cases "n < 10")
    case True
    then show ?thesis by (simp add: decimal.simps [of n] digits_value_def)
  next
    case False
    with 1 have "digits_value (decimal (n div 10)) = n div 10" by simp
    with False show ?thesis
      by (simp add: decimal.simps [of n] digits_value_snoc)
  qed
qed

lemma decimal_digits: "c \<in> set (decimal n) \<Longrightarrow> 48 \<le> c \<and> c \<le> 57"
proof (induction n rule: decimal.induct)
  case (1 n)
  show ?case
  proof (cases "n < 10")
    case True
    with 1(2) show ?thesis by (simp add: decimal.simps [of n])
  next
    case False
    have "n mod 10 < 10" by simp
    with False 1 show ?thesis
      by (auto simp add: decimal.simps [of n])
  qed
qed

lemma decimal_no_leading_zero: "0 < n \<Longrightarrow> decimal n \<noteq> [] \<and> hd (decimal n) \<noteq> 48"
proof (induction n rule: decimal.induct)
  case (1 n)
  show ?case
  proof (cases "n < 10")
    case True
    with 1(2) show ?thesis by (simp add: decimal.simps [of n])
  next
    case False
    then have "0 < n div 10" by (simp add: div_greater_zero_iff)
    with False 1 have "decimal (n div 10) \<noteq> [] \<and> hd (decimal (n div 10)) \<noteq> 48" by simp
    with False show ?thesis
      by (simp add: decimal.simps [of n])
  qed
qed

lemma decimal_nonempty: "decimal n \<noteq> []"
  by (subst decimal.simps) simp

section \<open>Properties of splitlines\<close>

lemma splitlines_last:
  assumes "l \<noteq> []" "\<forall>x \<in> set l. \<not> is_linebreak x"
  shows "splitlines l = [l]"
proof -
  from assms(1) obtain c cs where l: "l = c # cs" by (cases l) auto
  have "takeWhile (\<lambda>x. \<not> is_linebreak x) l = l" "dropWhile (\<lambda>x. \<not> is_linebreak x) l = []"
    using assms(2) by (simp_all add: takeWhile_eq_all_conv)
  then show ?thesis unfolding l by (simp add: splitlines.simps(2))
qed

lemma splitlines_break:
  assumes "\<forall>x \<in> set l. \<not> is_linebreak x" "is_linebreak r"
  shows "splitlines (l @ r # t) =
           l # splitlines (if r = 13 \<and> t \<noteq> [] \<and> hd t = 10 then tl t else t)"
proof -
  obtain c cs where l: "l @ r # t = c # cs" by (cases "l @ r # t") auto
  have tw: "takeWhile (\<lambda>x. \<not> is_linebreak x) (l @ r # t) = l"
    using assms by (simp add: takeWhile_tail takeWhile_eq_all_conv)
  have dw: "dropWhile (\<lambda>x. \<not> is_linebreak x) (l @ r # t) = r # t"
    using assms by (simp add: dropWhile_append3)
  show ?thesis
    using tw dw unfolding l by (simp add: splitlines.simps(2))
qed

lemma splitlines_induct [case_names Nil Last Break CRLF]:
  assumes "P []"
    and "\<And>l. l \<noteq> [] \<Longrightarrow> \<forall>x \<in> set l. \<not> is_linebreak x \<Longrightarrow> splitlines l = [l] \<Longrightarrow> P l"
    and "\<And>l r t. \<forall>x \<in> set l. \<not> is_linebreak x \<Longrightarrow> is_linebreak r \<Longrightarrow>
           splitlines (l @ r # t) = l # splitlines t \<Longrightarrow>
           \<not> (r = 13 \<and> t \<noteq> [] \<and> hd t = 10) \<Longrightarrow> P t \<Longrightarrow> P (l @ r # t)"
    and "\<And>l t. \<forall>x \<in> set l. \<not> is_linebreak x \<Longrightarrow>
           splitlines (l @ 13 # 10 # t) = l # splitlines t \<Longrightarrow> P t \<Longrightarrow> P (l @ 13 # 10 # t)"
  shows "P src"
proof (induction src rule: length_induct)
  case (1 src)
  let ?l = "takeWhile (\<lambda>x. \<not> is_linebreak x) src"
  let ?rest = "dropWhile (\<lambda>x. \<not> is_linebreak x) src"
  have l: "\<forall>x \<in> set ?l. \<not> is_linebreak x" by (auto dest: set_takeWhileD)
  show ?case
  proof (cases "src = []")
    case True
    then show ?thesis using assms(1) by simp
  next
    case False
    note nonempty = this
    show ?thesis
    proof (cases ?rest)
      case Nil
      then have all: "\<forall>x \<in> set src. \<not> is_linebreak x" by (simp add: dropWhile_eq_Nil_conv)
      with nonempty have "splitlines src = [src]" by (rule splitlines_last)
      with nonempty all show ?thesis by (rule assms(2))
    next
      case (Cons r t)
      have "is_linebreak (hd ?rest)"
        using hd_dropWhile [of "\<lambda>x. \<not> is_linebreak x" src] Cons by simp
      then have r: "is_linebreak r" by (simp add: Cons)
      have src: "?l @ r # t = src"
        by (simp only: Cons [symmetric] takeWhile_dropWhile_id)
      have len: "length ?l + Suc (length t) = length src"
        using arg_cong [OF src, of length] by simp
      show ?thesis
      proof (cases "r = 13 \<and> t \<noteq> [] \<and> hd t = 10")
        case True
        then obtain t' where t: "t = 10 # t'" by (cases t) auto
        have "length t' < length src" using len t by simp
        then have "P t'" using 1 by blast
        moreover have "splitlines (?l @ 13 # 10 # t') = ?l # splitlines t'"
          using splitlines_break [OF l, of 13 "10 # t'"] by (simp add: is_linebreak_def)
        ultimately have "P (?l @ 13 # 10 # t')" using assms(4) l by blast
        then have "P (?l @ r # t)" using True t by simp
        then show ?thesis unfolding src .
      next
        case False
        have "length t < length src" using len by simp
        then have "P t" using 1 by blast
        moreover have "splitlines (?l @ r # t) = ?l # splitlines t"
          using splitlines_break [OF l r, of t] False by simp
        ultimately have "P (?l @ r # t)" using assms(3) l r False by blast
        then show ?thesis unfolding src .
      qed
    qed
  qed
qed

lemma splitlines_no_linebreak:
  "ln \<in> set (splitlines src) \<Longrightarrow> c \<in> set ln \<Longrightarrow> \<not> is_linebreak c"
proof (induction src rule: splitlines_induct)
  case Nil
  then show ?case by simp
next
  case (Last l)
  from Last.prems(1) Last.hyps(3) have "ln = l" by simp
  with Last.hyps(2) Last.prems(2) show ?case by blast
next
  case (Break l r t)
  from Break.prems(1) Break.hyps(3) have "ln = l \<or> ln \<in> set (splitlines t)" by simp
  then show ?case using Break.hyps(1) Break.IH Break.prems(2) by blast
next
  case (CRLF l t)
  from CRLF.prems(1) CRLF.hyps(2) have "ln = l \<or> ln \<in> set (splitlines t)" by simp
  then show ?case using CRLF.hyps(1) CRLF.IH CRLF.prems(2) by blast
qed

lemma splitlines_segment:
  "ln \<in> set (splitlines src) \<Longrightarrow>
     \<exists>ps ss. src = ps @ ln @ ss \<and> (ps = [] \<or> is_linebreak (last ps))
        \<and> (ss = [] \<or> is_linebreak (hd ss))"
proof (induction src rule: splitlines_induct)
  case Nil
  then show ?case by simp
next
  case (Last l)
  then have "l = [] @ ln @ []" by simp
  then show ?case by blast
next
  case (Break l r t)
  from Break.prems Break.hyps(3) consider "ln = l" | "ln \<in> set (splitlines t)" by auto
  then show ?case
  proof cases
    case 1
    then have "l @ r # t = [] @ ln @ (r # t)" by simp
    then show ?thesis using Break.hyps(2) by (metis list.sel(1))
  next
    case 2
    then obtain ps ss where t: "t = ps @ ln @ ss" "ps = [] \<or> is_linebreak (last ps)"
      "ss = [] \<or> is_linebreak (hd ss)" using Break.IH by blast
    have "l @ r # t = (l @ r # ps) @ ln @ ss" using t(1) by simp
    moreover have "is_linebreak (last (l @ r # ps))" using t(2) Break.hyps(2) by auto
    ultimately show ?thesis using t(3) by blast
  qed
next
  case (CRLF l t)
  from CRLF.prems CRLF.hyps(2) consider "ln = l" | "ln \<in> set (splitlines t)" by auto
  then show ?case
  proof cases
    case 1
    then have "l @ 13 # 10 # t = [] @ ln @ (13 # 10 # t)" by simp
    moreover have "is_linebreak (hd (13 # 10 # t))" by (simp add: is_linebreak_def)
    ultimately show ?thesis by blast
  next
    case 2
    then obtain ps ss where t: "t = ps @ ln @ ss" "ps = [] \<or> is_linebreak (last ps)"
      "ss = [] \<or> is_linebreak (hd ss)" using CRLF.IH by blast
    have "l @ 13 # 10 # t = (l @ 13 # 10 # ps) @ ln @ ss" using t(1) by simp
    moreover have "is_linebreak (last (l @ 13 # 10 # ps))"
      using t(2) by (auto simp: is_linebreak_def)
    ultimately show ?thesis using t(3) by blast
  qed
qed

lemma newline_segments_last: "l \<noteq> [] \<Longrightarrow> 10 \<notin> set l \<Longrightarrow> spec_newline_segments l = [l]"
proof (induction l)
  case Nil
  then show ?case by simp
next
  case (Cons c cs)
  then show ?case by (cases "cs = []") auto
qed

lemma newline_segments_break:
  "10 \<notin> set l \<Longrightarrow> spec_newline_segments (l @ 10 # t) = l # spec_newline_segments t"
  by (induction l) auto

lemma splitlines_newline_segments:
  "(\<forall>c \<in> set src. is_linebreak c \<longrightarrow> c = 10) \<Longrightarrow> splitlines src = spec_newline_segments src"
proof (induction src rule: splitlines_induct)
  case Nil
  show ?case by simp
next
  case (Last l)
  have "is_linebreak 10" by (simp add: is_linebreak_def)
  with Last.hyps(2) have "10 \<notin> set l" by blast
  with Last.hyps(1) have "spec_newline_segments l = [l]" by (rule newline_segments_last)
  with Last.hyps(3) show ?case by simp
next
  case (Break l r t)
  from Break.prems have "is_linebreak r \<longrightarrow> r = 10" by simp
  with Break.hyps(2) have r: "r = 10" by simp
  from Break.prems have "\<forall>c \<in> set t. is_linebreak c \<longrightarrow> c = 10" by simp
  then have t: "splitlines t = spec_newline_segments t" by (rule Break.IH)
  have "is_linebreak 10" by (simp add: is_linebreak_def)
  with Break.hyps(1) have "10 \<notin> set l" by blast
  then have "spec_newline_segments (l @ 10 # t) = l # spec_newline_segments t"
    by (rule newline_segments_break)
  with Break.hyps(3) t r show ?case by simp
next
  case (CRLF l t)
  from CRLF.prems have "is_linebreak 13 \<longrightarrow> (13::nat) = 10" by simp
  moreover have "is_linebreak 13" by (simp add: is_linebreak_def)
  ultimately show ?case by simp
qed

lemma newline_segments_prefix:
  "10 \<notin> set p \<Longrightarrow>
     length (spec_newline_segments (p @ t)) \<le> Suc (length (spec_newline_segments t))"
  by (induction p) (auto split: list.splits)

lemma newline_segments_le_splitlines:
  "length (spec_newline_segments src) \<le> length (splitlines src)"
proof (induction src rule: splitlines_induct)
  case Nil
  show ?case by simp
next
  case (Last l)
  have "is_linebreak 10" by (simp add: is_linebreak_def)
  with Last.hyps(2) have "10 \<notin> set l" by blast
  with Last.hyps(1) have "spec_newline_segments l = [l]" by (rule newline_segments_last)
  with Last.hyps(3) show ?case by simp
next
  case (Break l r t)
  have lb: "is_linebreak 10" by (simp add: is_linebreak_def)
  with Break.hyps(1) have l: "10 \<notin> set l" by blast
  show ?case
  proof (cases "r = 10")
    case True
    have "spec_newline_segments (l @ 10 # t) = l # spec_newline_segments t"
      using l by (rule newline_segments_break)
    with True Break.hyps(3) Break.IH show ?thesis by simp
  next
    case False
    with l have "10 \<notin> set (l @ [r])" by simp
    then have "length (spec_newline_segments ((l @ [r]) @ t))
        \<le> Suc (length (spec_newline_segments t))"
      by (rule newline_segments_prefix)
    with Break.hyps(3) Break.IH show ?thesis by simp
  qed
next
  case (CRLF l t)
  have lb: "is_linebreak 10" by (simp add: is_linebreak_def)
  with CRLF.hyps(1) have "10 \<notin> set (l @ [13])" by auto
  then have "spec_newline_segments ((l @ [13]) @ 10 # t) = (l @ [13]) # spec_newline_segments t"
    by (rule newline_segments_break)
  with CRLF.hyps(2) CRLF.IH show ?case by simp
qed

lemma cr_is_linebreak: "is_linebreak 13"
  by (simp add: is_linebreak_def)

lemma lf_is_linebreak: "is_linebreak 10"
  by (simp add: is_linebreak_def)

lemma only_lf_and_crlf_skip:
  "\<not> is_linebreak c \<Longrightarrow> only_lf_and_crlf (c # xs) = only_lf_and_crlf xs"
  using cr_is_linebreak by (cases xs) auto

lemma only_lf_and_crlf_line:
  "\<forall>x \<in> set l. \<not> is_linebreak x \<Longrightarrow> only_lf_and_crlf (l @ s) = only_lf_and_crlf s"
  by (induction l) (simp_all add: only_lf_and_crlf_skip)

lemma only_lf_and_crlf_break:
  assumes "is_linebreak r" "\<not> (r = 13 \<and> t \<noteq> [] \<and> hd t = 10)" "only_lf_and_crlf (r # t)"
  shows "r = 10 \<and> only_lf_and_crlf t"
  using assms by (cases t) (auto split: if_splits)

lemma count_line_boundaries_skip:
  "\<not> is_linebreak c \<Longrightarrow> count_line_boundaries (c # xs) = count_line_boundaries xs"
  using cr_is_linebreak by (cases xs) auto

lemma count_line_boundaries_line:
  "\<forall>x \<in> set l. \<not> is_linebreak x \<Longrightarrow>
     count_line_boundaries (l @ s) = count_line_boundaries s"
  by (induction l) (simp_all add: count_line_boundaries_skip)

lemma count_line_boundaries_break:
  assumes "is_linebreak r" "\<not> (r = 13 \<and> t \<noteq> [] \<and> hd t = 10)"
  shows "count_line_boundaries (r # t) = Suc (count_line_boundaries t)"
  using assms by (cases t) auto

lemma length_splitlines_boundaries:
  "length (splitlines src) =
     count_line_boundaries src + (if src = [] \<or> is_linebreak (last src) then 0 else 1)"
proof (induction src rule: splitlines_induct)
  case Nil
  show ?case by simp
next
  case (Last l)
  have "count_line_boundaries (l @ []) = count_line_boundaries []"
    using Last.hyps(2) by (rule count_line_boundaries_line)
  then have "count_line_boundaries l = 0" by simp
  moreover have "\<not> is_linebreak (last l)" using Last.hyps(1,2) by simp
  ultimately show ?case using Last.hyps(1,3) by simp
next
  case (Break l r t)
  have "count_line_boundaries (l @ r # t) = count_line_boundaries (r # t)"
    using Break.hyps(1) by (rule count_line_boundaries_line)
  also have "\<dots> = Suc (count_line_boundaries t)"
    using Break.hyps(2,4) by (rule count_line_boundaries_break)
  finally have c: "count_line_boundaries (l @ r # t) = Suc (count_line_boundaries t)" .
  have "length (splitlines (l @ r # t)) = Suc (length (splitlines t))"
    by (simp add: Break.hyps(3))
  then show ?case using c Break.IH Break.hyps(2) by simp
next
  case (CRLF l t)
  have "count_line_boundaries (l @ 13 # 10 # t) = count_line_boundaries (13 # 10 # t)"
    using CRLF.hyps(1) by (rule count_line_boundaries_line)
  then have c: "count_line_boundaries (l @ 13 # 10 # t) = Suc (count_line_boundaries t)" by simp
  have "length (splitlines (l @ 13 # 10 # t)) = Suc (length (splitlines t))"
    by (simp add: CRLF.hyps(2))
  then show ?case using c CRLF.IH lf_is_linebreak by simp
qed

lemma length_splitlines_lf_crlf:
  "only_lf_and_crlf src \<Longrightarrow> length (splitlines src) = length (spec_newline_segments src)"
proof (induction src rule: splitlines_induct)
  case Nil
  show ?case by simp
next
  case (Last l)
  from Last.hyps(2) lf_is_linebreak have "10 \<notin> set l" by blast
  with Last.hyps(1) have "spec_newline_segments l = [l]" by (rule newline_segments_last)
  with Last.hyps(3) show ?case by simp
next
  case (Break l r t)
  have "only_lf_and_crlf (l @ r # t) = only_lf_and_crlf (r # t)"
    using Break.hyps(1) by (rule only_lf_and_crlf_line)
  with Break.prems have "only_lf_and_crlf (r # t)" by simp
  with Break.hyps(2,4) have rt: "r = 10 \<and> only_lf_and_crlf t"
    by (rule only_lf_and_crlf_break)
  then have ih: "length (splitlines t) = length (spec_newline_segments t)"
    using Break.IH by simp
  from Break.hyps(1) lf_is_linebreak have "10 \<notin> set l" by blast
  then have "spec_newline_segments (l @ 10 # t) = l # spec_newline_segments t"
    by (rule newline_segments_break)
  with Break.hyps(3) ih rt show ?case by simp
next
  case (CRLF l t)
  have "only_lf_and_crlf (l @ 13 # 10 # t) = only_lf_and_crlf (13 # 10 # t)"
    using CRLF.hyps(1) by (rule only_lf_and_crlf_line)
  with CRLF.prems have "only_lf_and_crlf t" by simp
  then have ih: "length (splitlines t) = length (spec_newline_segments t)"
    by (rule CRLF.IH)
  from CRLF.hyps(1) lf_is_linebreak have "10 \<notin> set (l @ [13])" by auto
  then have "spec_newline_segments ((l @ [13]) @ 10 # t) = (l @ [13]) # spec_newline_segments t"
    by (rule newline_segments_break)
  with CRLF.hyps(2) ih show ?case by simp
qed

section \<open>What the regular expression accepts\<close>

lemma rx_star_space:
  "rx_match (Star_space # p) b s \<longleftrightarrow>
     (\<exists>a t. s = a @ t \<and> list_all is_space a \<and> rx_match p (b \<and> a = []) t)"
proof (induction s arbitrary: b)
  case Nil
  show ?case by simp
next
  case (Cons x xs)
  show ?case
  proof
    assume "rx_match (Star_space # p) b (x # xs)"
    then consider "is_space x" "rx_match (Star_space # p) False xs" | "rx_match p b (x # xs)"
      by auto
    then show "\<exists>a t. x # xs = a @ t \<and> list_all is_space a \<and> rx_match p (b \<and> a = []) t"
    proof cases
      case 1
      then obtain a t where "xs = a @ t" "list_all is_space a" "rx_match p False t"
        using Cons.IH [of False] by auto
      with 1(1) have "x # xs = (x # a) @ t \<and> list_all is_space (x # a)
          \<and> rx_match p (b \<and> x # a = []) t" by simp
      then show ?thesis by blast
    next
      case 2
      then have "x # xs = [] @ (x # xs) \<and> list_all is_space []
          \<and> rx_match p (b \<and> ([]::nat list) = []) (x # xs)" by simp
      then show ?thesis by blast
    qed
  next
    assume "\<exists>a t. x # xs = a @ t \<and> list_all is_space a \<and> rx_match p (b \<and> a = []) t"
    then obtain a t where at: "x # xs = a @ t" "list_all is_space a"
      "rx_match p (b \<and> a = []) t" by blast
    show "rx_match (Star_space # p) b (x # xs)"
    proof (cases a)
      case Nil
      with at have "rx_match p b (x # xs)" by simp
      then show ?thesis by simp
    next
      case (Cons y a')
      with at have "is_space x" "xs = a' @ t" "list_all is_space a'" "rx_match p False t"
        by simp_all
      then have "rx_match (Star_space # p) False xs"
        using Cons.IH [of False] by auto
      with \<open>is_space x\<close> show ?thesis by simp
    qed
  qed
qed

lemma rx_chrs:
  "rx_match (map Chr w @ p) b s \<longleftrightarrow> (\<exists>t. s = w @ t \<and> rx_match p (b \<and> w = []) t)"
proof (induction w arbitrary: b s)
  case Nil
  show ?case by simp
next
  case (Cons c w)
  show ?case
  proof (cases s)
    case Nil
    then show ?thesis by simp
  next
    case (Cons x xs)
    then show ?thesis using Cons.IH [of False xs] by auto
  qed
qed

lemma rx_star_space_dollar:
  "rx_match [Star_space, Dollar] b s \<longleftrightarrow> list_all is_space s"
proof -
  have sp: "is_space 10" by (simp add: is_space_def)
  have "rx_match [Star_space, Dollar] b s \<longleftrightarrow>
          (\<exists>a t. s = a @ t \<and> list_all is_space a \<and> (t = [] \<or> t = [10]))"
    by (simp add: rx_star_space)
  also have "\<dots> \<longleftrightarrow> list_all is_space s"
  proof
    assume "\<exists>a t. s = a @ t \<and> list_all is_space a \<and> (t = [] \<or> t = [10])"
    then show "list_all is_space s" using sp by auto
  next
    assume "list_all is_space s"
    then have "s = s @ [] \<and> list_all is_space s \<and> (([]::nat list) = [] \<or> ([]::nat list) = [10])"
      by simp
    then show "\<exists>a t. s = a @ t \<and> list_all is_space a \<and> (t = [] \<or> t = [10])" by blast
  qed
  finally show ?thesis .
qed

lemma re_match_bare_except:
  "re_match bare_except_rx s \<longleftrightarrow>
     (\<exists>a b c. s = a @ lit ''except'' @ b @ [58] @ c
        \<and> list_all is_space a \<and> list_all is_space b \<and> list_all is_space c)"
proof -
  have kw: "lit ''except'' \<noteq> []" by (simp add: lit_def)
  have tail: "rx_match [Star_space, Chr 58, Star_space, Dollar] False u \<longleftrightarrow>
      (\<exists>b c. u = b @ [58] @ c \<and> list_all is_space b \<and> list_all is_space c)" for u
  proof -
    have "rx_match [Chr 58, Star_space, Dollar] False v \<longleftrightarrow>
        (\<exists>c. v = [58] @ c \<and> list_all is_space c)" for v
      by (cases v) (auto simp: rx_star_space_dollar)
    then show ?thesis
      by (subst rx_star_space) auto
  qed
  have "re_match bare_except_rx s \<longleftrightarrow>
      rx_match (Star_space # (map Chr (lit ''except'') @ [Star_space, Chr 58, Star_space, Dollar]))
        True s"
    by (simp add: re_match_def bare_except_rx_def)
  also have "\<dots> \<longleftrightarrow> (\<exists>a t. s = a @ t \<and> list_all is_space a
      \<and> (\<exists>u. t = lit ''except'' @ u
           \<and> rx_match [Star_space, Chr 58, Star_space, Dollar] False u))"
    by (simp only: rx_star_space rx_chrs kw simp_thms)
  also have "\<dots> \<longleftrightarrow> (\<exists>a b c. s = a @ lit ''except'' @ b @ [58] @ c
        \<and> list_all is_space a \<and> list_all is_space b \<and> list_all is_space c)"
    unfolding tail by blast
  finally show ?thesis .
qed

lemma strip_ws_sandwich:
  assumes "list_all is_space a" "list_all is_space c" "m \<noteq> []"
    "\<not> is_space (hd m)" "\<not> is_space (last m)"
  shows "strip_ws (a @ m @ c) = m"
proof -
  obtain x m' where m: "m = x # m'" using assms(3) by (cases m) auto
  obtain m'' y where m2: "m = m'' @ [y]" using assms(3) by (cases m rule: rev_cases) auto
  have x: "\<not> is_space x" using assms(4) m by simp
  have y: "\<not> is_space y" using assms(5) m2 by simp
  have a: "\<forall>z \<in> set a. is_space z" using assms(1) by (simp add: list_all_iff)
  have c: "\<forall>z \<in> set (rev c). is_space z" using assms(2) by (simp add: list_all_iff)
  have "dropWhile is_space (a @ x # m' @ c) = x # m' @ c"
    using a x by (simp add: dropWhile_append3)
  then have 1: "dropWhile is_space (a @ m @ c) = m @ c" by (simp add: m)
  have "dropWhile is_space (rev c @ y # rev m'') = y # rev m''"
    using c y by (simp add: dropWhile_append3)
  then have 2: "dropWhile is_space (rev c @ rev m) = rev m" by (simp add: m2)
  show ?thesis by (simp add: strip_ws_def 1 2)
qed

lemma strip_ws_decompose:
  "\<exists>a c. s = a @ strip_ws s @ c \<and> list_all is_space a \<and> list_all is_space c"
proof -
  let ?d = "dropWhile is_space s"
  let ?a = "takeWhile is_space s"
  let ?c = "rev (takeWhile is_space (rev ?d))"
  have "strip_ws s @ ?c = rev (takeWhile is_space (rev ?d) @ dropWhile is_space (rev ?d))"
    by (simp only: strip_ws_def rev_append)
  also have "\<dots> = ?d" by simp
  finally have d: "?d = strip_ws s @ ?c" by (rule sym)
  have "?a @ ?d = s" by simp
  then have "s = ?a @ strip_ws s @ ?c" using d by metis
  moreover have "list_all is_space ?a"
    by (auto simp: list_all_iff dest: set_takeWhileD)
  moreover have "list_all is_space ?c"
    by (auto simp: list_all_iff dest: set_takeWhileD)
  ultimately show ?thesis by blast
qed

lemma bare_handler_iff:
  "spec_bare_handler s \<longleftrightarrow>
     (\<exists>a b c. s = a @ lit ''except'' @ b @ [58] @ c
        \<and> list_all is_space a \<and> list_all is_space b \<and> list_all is_space c)"
proof
  assume "spec_bare_handler s"
  then have t: "take 6 (strip_ws s) = lit ''except''"
    and d: "dropWhile is_space (drop 6 (strip_ws s)) = [58]"
    by (simp_all add: spec_bare_handler_def Let_def)
  let ?b = "takeWhile is_space (drop 6 (strip_ws s))"
  have "take 6 (strip_ws s) @ drop 6 (strip_ws s) = strip_ws s" by simp
  moreover have "?b @ dropWhile is_space (drop 6 (strip_ws s)) = drop 6 (strip_ws s)" by simp
  ultimately have st: "strip_ws s = lit ''except'' @ ?b @ [58]" using t d by metis
  obtain a c where ac: "s = a @ strip_ws s @ c" "list_all is_space a" "list_all is_space c"
    using strip_ws_decompose by blast
  have b: "list_all is_space ?b" by (auto simp: list_all_iff dest: set_takeWhileD)
  have "s = a @ lit ''except'' @ ?b @ [58] @ c" using ac(1) st by (metis append_assoc)
  with ac(2,3) b show "\<exists>a b c. s = a @ lit ''except'' @ b @ [58] @ c
        \<and> list_all is_space a \<and> list_all is_space b \<and> list_all is_space c" by blast
next
  assume "\<exists>a b c. s = a @ lit ''except'' @ b @ [58] @ c
        \<and> list_all is_space a \<and> list_all is_space b \<and> list_all is_space c"
  then obtain a b c where s: "s = a @ lit ''except'' @ b @ [58] @ c"
    and sp: "list_all is_space a" "list_all is_space b" "list_all is_space c" by blast
  let ?m = "lit ''except'' @ b @ [58]"
  have "\<not> is_space (hd ?m)" by (simp add: lit_def is_space_def)
  moreover have "\<not> is_space (last ?m)" by (simp add: is_space_def)
  moreover have "?m \<noteq> []" by simp
  ultimately have "strip_ws (a @ ?m @ c) = ?m" using sp(1,3) by (intro strip_ws_sandwich)
  then have st: "strip_ws s = ?m" by (simp add: s)
  have l6: "length (lit ''except'') = 6" by (simp add: lit_def)
  have "dropWhile is_space (b @ [58]) = [58]"
    using sp(2) by (simp add: dropWhile_append3 list_all_iff is_space_def)
  then show "spec_bare_handler s"
    by (simp add: spec_bare_handler_def Let_def st l6)
qed

lemma re_match_bare_handler: "re_match bare_except_rx s \<longleftrightarrow> spec_bare_handler s"
  by (simp only: re_match_bare_except bare_handler_iff)

lemma re_match_bare_except_chars:
  assumes "re_match bare_except_rx s" "x \<in> set s"
  shows "is_space x \<or> x \<in> set (lit ''except'') \<or> x = 58"
proof -
  from assms(1) obtain a b c where s: "s = a @ lit ''except'' @ b @ [58] @ c"
    and sp: "list_all is_space a" "list_all is_space b" "list_all is_space c"
    unfolding re_match_bare_except by blast
  from assms(2) show ?thesis unfolding s using sp by (auto simp: list_all_iff)
qed

lemma bare_except_no_todo: "py_in (lit ''TODO'') s \<Longrightarrow> \<not> re_match bare_except_rx s"
proof
  assume "py_in (lit ''TODO'') s" "re_match bare_except_rx s"
  then have "84 \<in> set s" using py_in_subset [of "lit ''TODO''" s] by (auto simp: lit_def)
  with \<open>re_match bare_except_rx s\<close>
  have "is_space 84 \<or> 84 \<in> set (lit ''except'') \<or> (84::nat) = 58"
    by (rule re_match_bare_except_chars)
  then show False by (simp add: is_space_def lit_def)
qed

lemma bare_except_no_print: "py_in (lit ''print('') s \<Longrightarrow> \<not> re_match bare_except_rx s"
proof
  assume "py_in (lit ''print('') s" "re_match bare_except_rx s"
  then have "40 \<in> set s" using py_in_subset [of "lit ''print(''" s] by (auto simp: lit_def)
  with \<open>re_match bare_except_rx s\<close>
  have "is_space 40 \<or> 40 \<in> set (lit ''except'') \<or> (40::nat) = 58"
    by (rule re_match_bare_except_chars)
  then show False by (simp add: is_space_def lit_def)
qed

section \<open>The loop of the analyzer\<close>

lemmas issue_defs = style_issue_def todo_issue_def print_issue_def except_issue_def

lemma loop_body_append: "loop_body filename i ln issues = issues @ line_issues filename i ln"
  by (simp add: loop_body_def line_issues_def Let_def)

lemma line_issues_eq:
  "line_issues filename i ln =
     (if 120 < length ln then [style_issue filename i ln] else [])
     @ (if py_in (lit ''TODO'') ln then [todo_issue filename i ln] else [])
     @ (if py_in (lit ''print('') ln then [print_issue filename i ln] else [])
     @ (if re_match bare_except_rx ln then [except_issue filename i ln] else [])"
  by (simp add: line_issues_def loop_body_def Let_def issue_defs)

lemma detect_loop_append:
  "detect_loop filename i lns issues = issues @ detect_loop filename i lns []"
proof (induction lns arbitrary: i issues)
  case Nil
  show ?case by simp
next
  case (Cons ln lns)
  have "detect_loop filename i (ln # lns) issues =
        detect_loop filename (i + 1) lns (issues @ line_issues filename i ln)"
    by (simp add: loop_body_append)
  also have "\<dots> = (issues @ line_issues filename i ln) @ detect_loop filename (i + 1) lns []"
    by (rule Cons.IH)
  also have "\<dots> = issues @ detect_loop filename (i + 1) lns (line_issues filename i ln)"
    using Cons.IH [of "i + 1" "line_issues filename i ln"] by simp
  finally show ?case by (simp add: loop_body_append)
qed

lemma detect_loop_Cons:
  "detect_loop filename i (ln # lns) [] =
     line_issues filename i ln @ detect_loop filename (i + 1) lns []"
  using detect_loop_append [of filename "i + 1" lns "line_issues filename i ln"]
  by (simp add: loop_body_append)

lemma line_issues_fields:
  assumes "f \<in> set (line_issues filename i ln)"
  shows "line f = i" and "file_name f = filename" and "snippet f = ln"
    and "category f \<in> {lit ''Style'', lit ''Maintainability'', lit ''BestPractice'',
           lit ''ErrorHandling''}"
  using assms by (auto simp: line_issues_eq issue_defs split: if_splits)

lemma filter_line_line_issues:
  "filter (\<lambda>f. line f = j) (line_issues filename i ln) =
     (if j = i then line_issues filename i ln else [])"
proof -
  have "\<forall>f \<in> set (line_issues filename i ln). line f = i"
    by (simp add: line_issues_fields(1))
  then show ?thesis
    by (cases "j = i") (simp_all add: filter_empty_conv)
qed

lemma detect_loop_mem:
  "f \<in> set (detect_loop filename i lns []) \<longleftrightarrow>
     (\<exists>k < length lns. f \<in> set (line_issues filename (i + int k) (lns ! k)))"
proof (induction lns arbitrary: i)
  case Nil
  show ?case by simp
next
  case (Cons ln lns)
  have "(\<exists>k < length (ln # lns). f \<in> set (line_issues filename (i + int k) ((ln # lns) ! k)))
        \<longleftrightarrow> f \<in> set (line_issues filename i ln)
            \<or> (\<exists>k < length lns. f \<in> set (line_issues filename (i + 1 + int k) (lns ! k)))"
    (is "?L \<longleftrightarrow> ?A \<or> ?B")
  proof
    assume ?L
    then obtain k where k: "k < length (ln # lns)"
      "f \<in> set (line_issues filename (i + int k) ((ln # lns) ! k))" by blast
    show "?A \<or> ?B"
    proof (cases k)
      case 0
      with k show ?thesis by simp
    next
      case (Suc m)
      with k have "m < length lns" "f \<in> set (line_issues filename (i + 1 + int m) (lns ! m))"
        by (simp_all add: algebra_simps)
      then show ?thesis by blast
    qed
  next
    assume "?A \<or> ?B"
    then show ?L
    proof
      assume ?A
      then have "0 < length (ln # lns) \<and> f \<in> set (line_issues filename (i + int 0) ((ln # lns) ! 0))"
        by simp
      then show ?L by blast
    next
      assume ?B
      then obtain m where "m < length lns" "f \<in> set (line_issues filename (i + 1 + int m) (lns ! m))"
        by blast
      then have "Suc m < length (ln # lns)
          \<and> f \<in> set (line_issues filename (i + int (Suc m)) ((ln # lns) ! Suc m))"
        by (simp add: algebra_simps)
      then show ?L by blast
    qed
  qed
  then show ?case
    by (simp add: detect_loop_Cons Cons.IH del: detect_loop.simps)
qed

lemma detect_loop_line_bounds:
  assumes "f \<in> set (detect_loop filename i lns [])"
  shows "i \<le> line f" and "line f < i + int (length lns)"
    and "f \<in> set (line_issues filename (line f) (lns ! nat (line f - i)))"
proof -
  from assms obtain k where k: "k < length lns"
    "f \<in> set (line_issues filename (i + int k) (lns ! k))"
    by (auto simp: detect_loop_mem)
  then have l: "line f = i + int k" by (simp add: line_issues_fields(1))
  show "i \<le> line f" using l by simp
  show "line f < i + int (length lns)" using l k(1) by simp
  show "f \<in> set (line_issues filename (line f) (lns ! nat (line f - i)))"
    using k(2) l by simp
qed

lemma filter_line_detect_loop:
  "filter (\<lambda>f. line f = j) (detect_loop filename i lns []) =
     (if i \<le> j \<and> j < i + int (length lns)
      then line_issues filename j (lns ! nat (j - i)) else [])"
proof (induction lns arbitrary: i)
  case Nil
  show ?case by auto
next
  case (Cons ln lns)
  have "filter (\<lambda>f. line f = j) (detect_loop filename i (ln # lns) []) =
          (if j = i then line_issues filename i ln else [])
          @ (if i + 1 \<le> j \<and> j < i + 1 + int (length lns)
             then line_issues filename j (lns ! nat (j - (i + 1))) else [])"
    by (simp only: detect_loop_Cons filter_append filter_line_line_issues Cons.IH)
  moreover have "nat (j - i) = Suc (nat (j - (i + 1)))" if "i < j"
    using that by simp
  ultimately show ?case by auto
qed

lemma filter_line_detect_issues:
  "filter (\<lambda>f. line f = j) (detect_issues filename text) =
     (if 1 \<le> j \<and> j \<le> int (length (splitlines text))
      then line_issues filename j (splitlines text ! nat (j - 1)) else [])"
  by (simp add: detect_issues_def filter_line_detect_loop)

lemma filter_line_category:
  "filter (\<lambda>f. line f = j \<and> category f = c) fs =
     filter (\<lambda>f. category f = c) (filter (\<lambda>f. line f = j) fs)"
  by (simp add: conj_commute)

lemma category_ranks:
  "spec_category_rank (lit ''Style'') = 0" "spec_category_rank (lit ''Maintainability'') = 1"
  "spec_category_rank (lit ''BestPractice'') = 2" "spec_category_rank (lit ''ErrorHandling'') = 3"
  by (simp_all add: spec_category_rank_def lit_def)

lemma sorted_line_issues: "sorted_wrt finding_before (line_issues filename i ln)"
  by (simp add: line_issues_eq finding_before_def issue_defs category_ranks)

lemma sorted_detect_loop: "sorted_wrt finding_before (detect_loop filename i lns [])"
proof (induction lns arbitrary: i)
  case Nil
  show ?case by simp
next
  case (Cons ln lns)
  have "finding_before a b"
    if "a \<in> set (line_issues filename i ln)" "b \<in> set (detect_loop filename (i + 1) lns [])"
    for a b
  proof -
    have "line a = i" using that(1) by (rule line_issues_fields(1))
    moreover have "i + 1 \<le> line b" using that(2) by (rule detect_loop_line_bounds(1))
    ultimately show ?thesis by (simp add: finding_before_def)
  qed
  then show ?case
    by (simp add: detect_loop_Cons sorted_wrt_append sorted_line_issues Cons.IH
          del: detect_loop.simps)
qed

lemma detect_loop_concat:
  "detect_loop filename i lns [] =
     concat (map (\<lambda>k. loop_body filename (i + int k) (lns ! k) []) [0..<length lns])"
proof (induction lns arbitrary: i)
  case Nil
  show ?case by simp
next
  case (Cons ln lns)
  have "[0..<length (ln # lns)] = 0 # map Suc [0..<length lns]"
    by (simp add: upt_conv_Cons map_Suc_upt del: upt_Suc)
  then have "concat (map (\<lambda>k. loop_body filename (i + int k) ((ln # lns) ! k) [])
               [0..<length (ln # lns)]) =
        loop_body filename i ln []
        @ concat (map (\<lambda>k. loop_body filename (i + 1 + int k) (lns ! k) []) [0..<length lns])"
    by (simp add: o_def algebra_simps)
  also have "\<dots> = line_issues filename i ln @ detect_loop filename (i + 1) lns []"
    by (simp only: Cons.IH line_issues_def)
  finally show ?case by (simp only: detect_loop_Cons)
qed

section \<open>The findings of one line\<close>

lemma py_in_append_left: "py_in sub a \<Longrightarrow> py_in sub (a @ b)"
proof -
  assume "py_in sub a"
  then obtain ps ss where "a = ps @ sub @ ss" unfolding py_in_iff by blast
  then have "a @ b = ps @ sub @ (ss @ b)" by simp
  then show "py_in sub (a @ b)" unfolding py_in_iff by blast
qed

lemma filter_line_category_detect:
  assumes "i < length (splitlines text)"
  shows "filter (\<lambda>f. line f = int i + 1 \<and> category f = c) (detect_issues filename text) =
           filter (\<lambda>f. category f = c) (line_issues filename (int i + 1) (splitlines text ! i))"
proof -
  have "filter (\<lambda>f. line f = int i + 1) (detect_issues filename text) =
          line_issues filename (int i + 1) (splitlines text ! i)"
    using assms by (simp add: filter_line_detect_issues)
  then show ?thesis by (simp only: filter_line_category)
qed

lemma filter_style_line_issues:
  "filter (\<lambda>f. category f = lit ''Style'') (line_issues filename i ln) =
     (if 120 < length ln then [style_issue filename i ln] else [])"
  by (simp add: line_issues_eq issue_defs lit_def)

lemma filter_todo_line_issues:
  "filter (\<lambda>f. category f = lit ''Maintainability'') (line_issues filename i ln) =
     (if py_in (lit ''TODO'') ln then [todo_issue filename i ln] else [])"
  by (simp add: line_issues_eq issue_defs lit_def)

lemma filter_print_line_issues:
  "filter (\<lambda>f. category f = lit ''BestPractice'') (line_issues filename i ln) =
     (if py_in (lit ''print('') ln then [print_issue filename i ln] else [])"
  by (simp add: line_issues_eq issue_defs lit_def)

lemma filter_except_line_issues:
  "filter (\<lambda>f. category f = lit ''ErrorHandling'') (line_issues filename i ln) =
     (if re_match bare_except_rx ln then [except_issue filename i ln] else [])"
  by (simp add: line_issues_eq issue_defs lit_def)

lemma length_filter_category_line_issues:
  "length (filter (\<lambda>f. category f = c) (line_issues filename i ln)) \<le> 1"
  by (auto simp: line_issues_eq issue_defs lit_def)

lemma length_line_issues: "length (line_issues filename i ln) \<le> 4"
  by (simp add: line_issues_eq)

lemma detect_issues_fields:
  assumes "f \<in> set (detect_issues filename text)"
  shows "1 \<le> line f" and "line f \<le> int (length (splitlines text))"
    and "file_name f = filename"
    and "snippet f = splitlines text ! nat (line f - 1)"
    and "category f \<in> {lit ''Style'', lit ''Maintainability'', lit ''BestPractice'',
           lit ''ErrorHandling''}"
proof -
  from assms have f: "f \<in> set (detect_loop filename 1 (splitlines text) [])"
    by (simp add: detect_issues_def)
  from detect_loop_line_bounds(1) [OF f] show "1 \<le> line f" .
  from detect_loop_line_bounds(2) [OF f] show "line f \<le> int (length (splitlines text))" by simp
  note m = detect_loop_line_bounds(3) [OF f]
  from line_issues_fields(2) [OF m] show "file_name f = filename" .
  from line_issues_fields(3) [OF m] show "snippet f = splitlines text ! nat (line f - 1)" .
  from line_issues_fields(4) [OF m] show "category f \<in> {lit ''Style'', lit ''Maintainability'',
     lit ''BestPractice'', lit ''ErrorHandling''}" .
qed

lemma sorted_detect_issues: "sorted_wrt finding_before (detect_issues filename text)"
  by (simp add: detect_issues_def sorted_detect_loop)

lemma long_todo_print_line:
  assumes "length ln = 130" "py_in (lit ''TODO'') ln" "py_in (lit ''print('') ln"
  shows "line_issues filename i ln =
           [style_issue filename i ln, todo_issue filename i ln, print_issue filename i ln]"
  using assms bare_except_no_todo [OF assms(2)] by (simp add: line_issues_eq)

section \<open>The end-to-end example\<close>

lemma example_lines:
  "splitlines example_text =
     [lit ''x = 1'', lit ''print('debug')  # TODO fix'', lit ''except:'']"
  by (simp add: example_text_def splitlines.simps is_linebreak_def lit_def)

lemma example_line1: "line_issues filename i (lit ''x = 1'') = []"
  by (simp add: line_issues_def loop_body_def lit_def re_match_def bare_except_rx_def
      is_space_def)

lemma example_line2:
  "line_issues filename i (lit ''print('debug')  # TODO fix'') =
     [todo_issue filename i (lit ''print('debug')  # TODO fix''),
      print_issue filename i (lit ''print('debug')  # TODO fix'')]"
  by (simp add: line_issues_def loop_body_def lit_def re_match_def bare_except_rx_def
      is_space_def issue_defs)

lemma example_line3:
  "line_issues filename i (lit ''except:'') = [except_issue filename i (lit ''except:'')]"
  by (simp add: line_issues_def loop_body_def lit_def re_match_def bare_except_rx_def
      is_space_def issue_defs)

lemma example_findings:
  "detect_issues filename example_text =
     [todo_issue filename 2 (lit ''print('debug')  # TODO fix''),
      print_issue filename 2 (lit ''print('debug')  # TODO fix''),
      except_issue filename 3 (lit ''except:'')]"
  unfolding detect_issues_def example_lines detect_loop_Cons
    example_line1 example_line2 example_line3
  by simp

text \<open>
  Claim C9, as the code has it. On the example text the analyzer returns three findings,
  not four: Maintainability and BestPractice for line 2, ErrorHandling for line 3, and
  nothing for line 1. The three findings are the ones the claim itself lists; only its
  total is off by one.
\<close>

theorem C9_example_three_findings:
  "detect_issues filename example_text =
     [\<lparr>file_name = filename, line = 2, category = lit ''Maintainability'',
        message = lit ''TODO left in code'',
        snippet = lit ''print('debug')  # TODO fix''\<rparr>,
      \<lparr>file_name = filename, line = 2, category = lit ''BestPractice'',
        message = lit ''Avoid print in library code; prefer logging'',
        snippet = lit ''print('debug')  # TODO fix''\<rparr>,
      \<lparr>file_name = filename, line = 3, category = lit ''ErrorHandling'',
        message = lit ''Bare except detected; catch specific exceptions'',
        snippet = lit ''except:''\<rparr>]"
  by (simp add: example_findings issue_defs)

text \<open>
  Claim C9 as stated, refuted: for the file name the request handler passes, the number
  of findings on the example text is not four.
\<close>

theorem C9_example_not_four:
  "length (detect_issues (lit ''uploaded_code.py'') example_text) \<noteq> 4"
  by (simp add: example_findings)

section \<open>The four checks\<close>

text \<open>
  Claim C2. For the line with index \<open>i\<close> of the split text (line number \<open>i + 1\<close>), the
  analyzer emits a Style finding exactly when the line has more than 120 characters; then
  it emits one, whose message is \<^verbatim>\<open>Line length \<close>, the length of the line in decimal, and
  \<^verbatim>\<open> exceeds 120 chars\<close>. The numeral in the message is the decimal numeral of the length:
  it is not empty, it consists of the digits 0 to 9 only, it denotes the length, and it has
  no leading zero.
\<close>

theorem C2_style_iff_longer_than_120:
  "i < length (splitlines text) \<Longrightarrow>
     filter (\<lambda>f. line f = int i + 1 \<and> category f = lit ''Style'')
         (detect_issues filename text) =
       (if 120 < length (splitlines text ! i)
        then [\<lparr>file_name = filename, line = int i + 1, category = lit ''Style'',
               message = lit ''Line length '' @ str_int (int (length (splitlines text ! i)))
                         @ lit '' exceeds 120 chars'',
               snippet = splitlines text ! i\<rparr>]
        else [])
     \<and> digits_value (str_int (int (length (splitlines text ! i)))) = length (splitlines text ! i)
     \<and> str_int (int (length (splitlines text ! i))) \<noteq> []
     \<and> list_all (\<lambda>c. 48 \<le> c \<and> c \<le> 57) (str_int (int (length (splitlines text ! i))))
     \<and> (0 < length (splitlines text ! i) \<longrightarrow>
          hd (str_int (int (length (splitlines text ! i)))) \<noteq> 48)"
proof (intro conjI impI)
  assume "i < length (splitlines text)"
  then show "filter (\<lambda>f. line f = int i + 1 \<and> category f = lit ''Style'')
         (detect_issues filename text) =
       (if 120 < length (splitlines text ! i)
        then [\<lparr>file_name = filename, line = int i + 1, category = lit ''Style'',
               message = lit ''Line length '' @ str_int (int (length (splitlines text ! i)))
                         @ lit '' exceeds 120 chars'',
               snippet = splitlines text ! i\<rparr>]
        else [])"
    by (simp add: filter_line_category_detect filter_style_line_issues style_issue_def)
next
  show "digits_value (str_int (int (length (splitlines text ! i)))) = length (splitlines text ! i)"
    by (simp only: str_int_nat digits_value_decimal)
next
  show "str_int (int (length (splitlines text ! i))) \<noteq> []"
    by (simp only: str_int_nat decimal_nonempty not_False_eq_True)
next
  show "list_all (\<lambda>c. 48 \<le> c \<and> c \<le> 57) (str_int (int (length (splitlines text ! i))))"
    unfolding str_int_nat list_all_iff using decimal_digits by blast
next
  assume "0 < length (splitlines text ! i)"
  then show "hd (str_int (int (length (splitlines text ! i)))) \<noteq> 48"
    unfolding str_int_nat using decimal_no_leading_zero by blast
qed

text \<open>
  A line of exactly 120 characters yields no Style finding, and a line of 121 characters
  yields one whose message reads \<^verbatim>\<open>Line length 121 exceeds 120 chars\<close>.
\<close>

theorem C2_style_witness:
  "filter (\<lambda>f. line f = 1 \<and> category f = lit ''Style'')
       (detect_issues (lit ''uploaded_code.py'') (replicate 120 97 @ 10 # replicate 121 97)) = []
   \<and> filter (\<lambda>f. line f = 2 \<and> category f = lit ''Style'')
       (detect_issues (lit ''uploaded_code.py'') (replicate 120 97 @ 10 # replicate 121 97)) =
       [\<lparr>file_name = lit ''uploaded_code.py'', line = 2, category = lit ''Style'',
          message = lit ''Line length 121 exceeds 120 chars'', snippet = replicate 121 97\<rparr>]
   \<and> hd (str_int 121) \<noteq> 48"
proof -
  let ?T = "replicate 120 97 @ 10 # replicate 121 (97::nat)"
  have a: "\<not> is_linebreak 97" by (simp add: is_linebreak_def)
  have "splitlines ?T = replicate 120 97 # splitlines (replicate 121 97)"
    using a by (subst splitlines_break) (simp_all add: is_linebreak_def)
  also have "splitlines (replicate 121 97) = [replicate 121 97]"
    using a by (intro splitlines_last) simp_all
  finally have lines: "splitlines ?T = [replicate 120 97, replicate 121 97]" .
  have d: "str_int 121 = lit ''121''" by (simp add: str_int_def decimal.simps lit_def)
  have i0: "0 < length (splitlines ?T)" and i1: "1 < length (splitlines ?T)"
    by (simp_all add: lines)
  note t0 = C2_style_iff_longer_than_120 [OF i0, of "lit ''uploaded_code.py''"]
  note t1 = C2_style_iff_longer_than_120 [OF i1, of "lit ''uploaded_code.py''"]
  have "filter (\<lambda>f. line f = 1 \<and> category f = lit ''Style'')
       (detect_issues (lit ''uploaded_code.py'') ?T) = []"
    using conjunct1 [OF t0] by (simp add: lines)
  moreover have "filter (\<lambda>f. line f = 2 \<and> category f = lit ''Style'')
       (detect_issues (lit ''uploaded_code.py'') ?T) =
       [\<lparr>file_name = lit ''uploaded_code.py'', line = 2, category = lit ''Style'',
          message = lit ''Line length 121 exceeds 120 chars'', snippet = replicate 121 97\<rparr>]"
    using conjunct1 [OF t1] by (simp add: lines d lit_def)
  moreover have "hd (str_int 121) \<noteq> 48"
    using t1 [THEN conjunct2, THEN conjunct2, THEN conjunct2, THEN conjunct2]
    by (simp add: lines)
  ultimately show ?thesis by simp
qed

text \<open>
  Claim C3. A line yields exactly one Maintainability finding, with the message
  \<^verbatim>\<open>TODO left in code\<close>, if \<^verbatim>\<open>TODO\<close> occurs anywhere in it as a substring, and no
  Maintainability finding otherwise.
\<close>

theorem C3_todo_marker:
  "i < length (splitlines text) \<Longrightarrow>
     filter (\<lambda>f. line f = int i + 1 \<and> category f = lit ''Maintainability'')
         (detect_issues filename text) =
       (if \<exists>ps ss. splitlines text ! i = ps @ lit ''TODO'' @ ss
        then [\<lparr>file_name = filename, line = int i + 1, category = lit ''Maintainability'',
               message = lit ''TODO left in code'', snippet = splitlines text ! i\<rparr>]
        else [])"
  by (simp add: filter_line_category_detect filter_todo_line_issues todo_issue_def py_in_iff)

text \<open>
  The marker inside an identifier is found; the lower-case word is not.
\<close>

theorem C3_todo_witness:
  "filter (\<lambda>f. line f = 1 \<and> category f = lit ''Maintainability'')
       (detect_issues (lit ''uploaded_code.py'')
          (lit ''my_TODOlist = 1'' @ 10 # lit ''# todo: later'')) =
       [\<lparr>file_name = lit ''uploaded_code.py'', line = 1, category = lit ''Maintainability'',
          message = lit ''TODO left in code'', snippet = lit ''my_TODOlist = 1''\<rparr>]
   \<and> filter (\<lambda>f. line f = 2 \<and> category f = lit ''Maintainability'')
       (detect_issues (lit ''uploaded_code.py'')
          (lit ''my_TODOlist = 1'' @ 10 # lit ''# todo: later'')) = []"
proof -
  let ?T = "lit ''my_TODOlist = 1'' @ 10 # lit ''# todo: later''"
  have lines: "splitlines ?T = [lit ''my_TODOlist = 1'', lit ''# todo: later'']"
    by (simp add: splitlines.simps is_linebreak_def lit_def)
  have 1: "\<exists>ps ss. lit ''my_TODOlist = 1'' = ps @ lit ''TODO'' @ ss"
    unfolding py_in_iff [symmetric] by (simp add: lit_def)
  have 2: "\<not> (\<exists>ps ss. lit ''# todo: later'' = ps @ lit ''TODO'' @ ss)"
    unfolding py_in_iff [symmetric] by (simp add: lit_def)
  have "filter (\<lambda>f. line f = 1 \<and> category f = lit ''Maintainability'')
       (detect_issues (lit ''uploaded_code.py'') ?T) =
       [\<lparr>file_name = lit ''uploaded_code.py'', line = 1, category = lit ''Maintainability'',
          message = lit ''TODO left in code'', snippet = lit ''my_TODOlist = 1''\<rparr>]"
    using C3_todo_marker [of 0 ?T "lit ''uploaded_code.py''"] 1
    by (simp add: lines)
  moreover have "filter (\<lambda>f. line f = 2 \<and> category f = lit ''Maintainability'')
       (detect_issues (lit ''uploaded_code.py'') ?T) = []"
    using C3_todo_marker [of 1 ?T "lit ''uploaded_code.py''"] 2
    by (simp add: lines)
  ultimately show ?thesis by simp
qed

text \<open>
  Claim C4. A line yields exactly one BestPractice finding if \<^verbatim>\<open>print(\<close> occurs anywhere in
  it as a substring, and no BestPractice finding otherwise.
\<close>

theorem C4_print_usage:
  "i < length (splitlines text) \<Longrightarrow>
     filter (\<lambda>f. line f = int i + 1 \<and> category f = lit ''BestPractice'')
         (detect_issues filename text) =
       (if \<exists>ps ss. splitlines text ! i = ps @ lit ''print('' @ ss
        then [\<lparr>file_name = filename, line = int i + 1, category = lit ''BestPractice'',
               message = lit ''Avoid print in library code; prefer logging'',
               snippet = splitlines text ! i\<rparr>]
        else [])"
  by (simp add: filter_line_category_detect filter_print_line_issues print_issue_def py_in_iff)

text \<open>
  The substring inside a string literal is found; an identifier that only begins with
  \<^verbatim>\<open>print\<close> is not.
\<close>

theorem C4_print_witness:
  "filter (\<lambda>f. line f = 1 \<and> category f = lit ''BestPractice'')
       (detect_issues (lit ''uploaded_code.py'')
          (lit ''msg = 'print(' + x'' @ 10 # lit ''printer = 1'')) =
       [\<lparr>file_name = lit ''uploaded_code.py'', line = 1, category = lit ''BestPractice'',
          message = lit ''Avoid print in library code; prefer logging'',
          snippet = lit ''msg = 'print(' + x''\<rparr>]
   \<and> filter (\<lambda>f. line f = 2 \<and> category f = lit ''BestPractice'')
       (detect_issues (lit ''uploaded_code.py'')
          (lit ''msg = 'print(' + x'' @ 10 # lit ''printer = 1'')) = []"
proof -
  let ?T = "lit ''msg = 'print(' + x'' @ 10 # lit ''printer = 1''"
  have lines: "splitlines ?T = [lit ''msg = 'print(' + x'', lit ''printer = 1'']"
    by (simp add: splitlines.simps is_linebreak_def lit_def)
  have 1: "\<exists>ps ss. lit ''msg = 'print(' + x'' = ps @ lit ''print('' @ ss"
    unfolding py_in_iff [symmetric] by (simp add: lit_def)
  have 2: "\<not> (\<exists>ps ss. lit ''printer = 1'' = ps @ lit ''print('' @ ss)"
    unfolding py_in_iff [symmetric] by (simp add: lit_def)
  have "filter (\<lambda>f. line f = 1 \<and> category f = lit ''BestPractice'')
       (detect_issues (lit ''uploaded_code.py'') ?T) =
       [\<lparr>file_name = lit ''uploaded_code.py'', line = 1, category = lit ''BestPractice'',
          message = lit ''Avoid print in library code; prefer logging'',
          snippet = lit ''msg = 'print(' + x''\<rparr>]"
    using C4_print_usage [of 0 ?T "lit ''uploaded_code.py''"] 1
    by (simp add: lines)
  moreover have "filter (\<lambda>f. line f = 2 \<and> category f = lit ''BestPractice'')
       (detect_issues (lit ''uploaded_code.py'') ?T) = []"
    using C4_print_usage [of 1 ?T "lit ''uploaded_code.py''"] 2
    by (simp add: lines)
  ultimately show ?thesis by simp
qed

text \<open>
  Claim C5. A line yields exactly one ErrorHandling finding if and only if, leading and
  trailing whitespace ignored, it consists of the keyword \<^verbatim>\<open>except\<close> followed only by
  whitespace and the colon; that is, if and only if it is whitespace, the keyword,
  whitespace, the colon and whitespace.
\<close>

theorem C5_bare_except:
  "i < length (splitlines text) \<Longrightarrow>
     filter (\<lambda>f. line f = int i + 1 \<and> category f = lit ''ErrorHandling'')
         (detect_issues filename text) =
       (if spec_bare_handler (splitlines text ! i)
        then [\<lparr>file_name = filename, line = int i + 1, category = lit ''ErrorHandling'',
               message = lit ''Bare except detected; catch specific exceptions'',
               snippet = splitlines text ! i\<rparr>]
        else [])
     \<and> (spec_bare_handler (splitlines text ! i) \<longleftrightarrow>
          (\<exists>a b c. splitlines text ! i = a @ lit ''except'' @ b @ [58] @ c
             \<and> list_all is_space a \<and> list_all is_space b \<and> list_all is_space c))"
proof (intro conjI)
  assume "i < length (splitlines text)"
  then show "filter (\<lambda>f. line f = int i + 1 \<and> category f = lit ''ErrorHandling'')
         (detect_issues filename text) =
       (if spec_bare_handler (splitlines text ! i)
        then [\<lparr>file_name = filename, line = int i + 1, category = lit ''ErrorHandling'',
               message = lit ''Bare except detected; catch specific exceptions'',
               snippet = splitlines text ! i\<rparr>]
        else [])"
    by (simp add: filter_line_category_detect filter_except_line_issues except_issue_def
        re_match_bare_handler)
next
  show "spec_bare_handler (splitlines text ! i) \<longleftrightarrow>
          (\<exists>a b c. splitlines text ! i = a @ lit ''except'' @ b @ [58] @ c
             \<and> list_all is_space a \<and> list_all is_space b \<and> list_all is_space c)"
    by (rule bare_handler_iff)
qed

text \<open>
  An indented bare handler is found; a handler that names an exception type and a line that
  merely contains the text \<^verbatim>\<open>except:\<close> are not.
\<close>

theorem C5_bare_except_witness:
  "filter (\<lambda>f. line f = 1 \<and> category f = lit ''ErrorHandling'')
       (detect_issues (lit ''uploaded_code.py'')
          (lit ''    except :  '' @ 10 # lit ''except ValueError:'' @ 10 # lit ''# no except: here'')) =
       [\<lparr>file_name = lit ''uploaded_code.py'', line = 1, category = lit ''ErrorHandling'',
          message = lit ''Bare except detected; catch specific exceptions'',
          snippet = lit ''    except :  ''\<rparr>]
   \<and> filter (\<lambda>f. line f = 2 \<and> category f = lit ''ErrorHandling'')
       (detect_issues (lit ''uploaded_code.py'')
          (lit ''    except :  '' @ 10 # lit ''except ValueError:'' @ 10 # lit ''# no except: here'')) = []
   \<and> filter (\<lambda>f. line f = 3 \<and> category f = lit ''ErrorHandling'')
       (detect_issues (lit ''uploaded_code.py'')
          (lit ''    except :  '' @ 10 # lit ''except ValueError:'' @ 10 # lit ''# no except: here'')) = []"
proof -
  let ?T = "lit ''    except :  '' @ 10 # lit ''except ValueError:'' @ 10 # lit ''# no except: here''"
  have lines: "splitlines ?T =
      [lit ''    except :  '', lit ''except ValueError:'', lit ''# no except: here'']"
    by (simp add: splitlines.simps is_linebreak_def lit_def)
  have 1: "spec_bare_handler (lit ''    except :  '')"
    by (simp add: spec_bare_handler_def strip_ws_def is_space_def lit_def)
  have 2: "\<not> spec_bare_handler (lit ''except ValueError:'')"
    by (simp add: spec_bare_handler_def strip_ws_def is_space_def lit_def)
  have 3: "\<not> spec_bare_handler (lit ''# no except: here'')"
    by (simp add: spec_bare_handler_def strip_ws_def is_space_def lit_def)
  have "filter (\<lambda>f. line f = 1 \<and> category f = lit ''ErrorHandling'')
       (detect_issues (lit ''uploaded_code.py'') ?T) =
       [\<lparr>file_name = lit ''uploaded_code.py'', line = 1, category = lit ''ErrorHandling'',
          message = lit ''Bare except detected; catch specific exceptions'',
          snippet = lit ''    except :  ''\<rparr>]"
    using conjunct1 [OF C5_bare_except [of 0 ?T "lit ''uploaded_code.py''"]] 1
    by (simp add: lines)
  moreover have "filter (\<lambda>f. line f = 2 \<and> category f = lit ''ErrorHandling'')
       (detect_issues (lit ''uploaded_code.py'') ?T) = []"
    using conjunct1 [OF C5_bare_except [of 1 ?T "lit ''uploaded_code.py''"]] 2
    by (simp add: lines)
  moreover have "filter (\<lambda>f. line f = 3 \<and> category f = lit ''ErrorHandling'')
       (detect_issues (lit ''uploaded_code.py'') ?T) = []"
    using conjunct1 [OF C5_bare_except [of 2 ?T "lit ''uploaded_code.py''"]] 3
    by (simp add: lines)
  ultimately show ?thesis by simp
qed

section \<open>Line numbers, categories and counts\<close>

text \<open>
  Claim C10. Every finding has a line number between 1 and the number of lines of the
  split text, and its category is one of the four strings \<^verbatim>\<open>Style\<close>, \<^verbatim>\<open>Maintainability\<close>,
  \<^verbatim>\<open>BestPractice\<close>, \<^verbatim>\<open>ErrorHandling\<close>. Each line contributes at most one finding per
  category, hence at most four findings.
\<close>

theorem C10_line_numbers_categories_bounds:
  "(\<forall>f \<in> set (detect_issues filename text).
       1 \<le> line f \<and> line f \<le> int (length (splitlines text))
       \<and> category f \<in> {lit ''Style'', lit ''Maintainability'', lit ''BestPractice'',
            lit ''ErrorHandling''})
   \<and> (\<forall>i c. length (filter (\<lambda>f. line f = i \<and> category f = c)
                 (detect_issues filename text)) \<le> 1)
   \<and> (\<forall>i. length (filter (\<lambda>f. line f = i) (detect_issues filename text)) \<le> 4)"
proof (intro conjI ballI allI)
  fix f assume f: "f \<in> set (detect_issues filename text)"
  show "1 \<le> line f" using f by (rule detect_issues_fields(1))
  show "line f \<le> int (length (splitlines text))" using f by (rule detect_issues_fields(2))
  show "category f \<in> {lit ''Style'', lit ''Maintainability'', lit ''BestPractice'',
            lit ''ErrorHandling''}" using f by (rule detect_issues_fields(5))
next
  fix i c
  show "length (filter (\<lambda>f. line f = i \<and> category f = c) (detect_issues filename text)) \<le> 1"
    by (simp only: filter_line_category filter_line_detect_issues
        length_filter_category_line_issues filter.simps list.size split: if_split) simp
next
  fix i
  show "length (filter (\<lambda>f. line f = i) (detect_issues filename text)) \<le> 4"
    by (simp add: filter_line_detect_issues length_line_issues)
qed

text \<open>The first finding of the end-to-end example, as an instance of C10.\<close>

theorem C10_bounds_witness:
  "hd (detect_issues (lit ''uploaded_code.py'') example_text)
     \<in> set (detect_issues (lit ''uploaded_code.py'') example_text)
   \<and> 1 \<le> line (hd (detect_issues (lit ''uploaded_code.py'') example_text))
   \<and> line (hd (detect_issues (lit ''uploaded_code.py'') example_text)) \<le> 3
   \<and> category (hd (detect_issues (lit ''uploaded_code.py'') example_text))
       \<in> {lit ''Style'', lit ''Maintainability'', lit ''BestPractice'', lit ''ErrorHandling''}"
proof -
  let ?fs = "detect_issues (lit ''uploaded_code.py'') example_text"
  have mem: "hd ?fs \<in> set ?fs" by (simp add: example_findings)
  have "\<forall>f \<in> set ?fs. 1 \<le> line f \<and> line f \<le> int (length (splitlines example_text))
       \<and> category f \<in> {lit ''Style'', lit ''Maintainability'', lit ''BestPractice'',
            lit ''ErrorHandling''}"
    using C10_line_numbers_categories_bounds [of "lit ''uploaded_code.py''" example_text]
    by (rule conjunct1)
  then have "1 \<le> line (hd ?fs) \<and> line (hd ?fs) \<le> int (length (splitlines example_text))
       \<and> category (hd ?fs) \<in> {lit ''Style'', lit ''Maintainability'', lit ''BestPractice'',
            lit ''ErrorHandling''}"
    using mem by (rule bspec)
  then show ?thesis using mem by (simp add: example_lines)
qed

section \<open>Order of the findings\<close>

text \<open>
  Claim C1. The findings are returned in non-decreasing order of their line numbers, and
  among the findings of one line the categories appear in the order Style,
  Maintainability, BestPractice, ErrorHandling. In particular a line of 130 characters
  that contains both \<^verbatim>\<open>TODO\<close> and \<^verbatim>\<open>print(\<close> yields exactly three findings for its line
  number: Style, Maintainability, BestPractice, in this order.
\<close>

theorem C1_findings_ordered:
  "sorted (map line (detect_issues filename text))
   \<and> sorted_wrt (\<lambda>a b. line a = line b \<longrightarrow>
          spec_category_rank (category a) < spec_category_rank (category b))
        (detect_issues filename text)
   \<and> (\<forall>i < length (splitlines text).
         length (splitlines text ! i) = 130
         \<and> (\<exists>ps ss. splitlines text ! i = ps @ lit ''TODO'' @ ss)
         \<and> (\<exists>ps ss. splitlines text ! i = ps @ lit ''print('' @ ss) \<longrightarrow>
         filter (\<lambda>f. line f = int i + 1) (detect_issues filename text) =
           [\<lparr>file_name = filename, line = int i + 1, category = lit ''Style'',
              message = lit ''Line length 130 exceeds 120 chars'',
              snippet = splitlines text ! i\<rparr>,
            \<lparr>file_name = filename, line = int i + 1, category = lit ''Maintainability'',
              message = lit ''TODO left in code'', snippet = splitlines text ! i\<rparr>,
            \<lparr>file_name = filename, line = int i + 1, category = lit ''BestPractice'',
              message = lit ''Avoid print in library code; prefer logging'',
              snippet = splitlines text ! i\<rparr>])"
proof (intro conjI allI impI)
  have s: "sorted_wrt finding_before (detect_issues filename text)"
    by (rule sorted_detect_issues)
  have "sorted_wrt (\<lambda>a b. line a \<le> line b) (detect_issues filename text)"
    by (rule sorted_wrt_mono_rel [OF _ s]) (auto simp: finding_before_def)
  then show "sorted (map line (detect_issues filename text))"
    by (simp add: sorted_wrt_map)
  show "sorted_wrt (\<lambda>a b. line a = line b \<longrightarrow>
          spec_category_rank (category a) < spec_category_rank (category b))
        (detect_issues filename text)"
    by (rule sorted_wrt_mono_rel [OF _ s]) (auto simp: finding_before_def)
next
  fix i
  assume i: "i < length (splitlines text)"
    and h: "length (splitlines text ! i) = 130
         \<and> (\<exists>ps ss. splitlines text ! i = ps @ lit ''TODO'' @ ss)
         \<and> (\<exists>ps ss. splitlines text ! i = ps @ lit ''print('' @ ss)"
  let ?ln = "splitlines text ! i"
  from h have len: "length ?ln = 130" and todo: "py_in (lit ''TODO'') ?ln"
    and pr: "py_in (lit ''print('') ?ln"
    by (simp_all add: py_in_iff)
  have d: "str_int 130 = lit ''130''" by (simp add: str_int_def decimal.simps lit_def)
  have "filter (\<lambda>f. line f = int i + 1) (detect_issues filename text) =
          line_issues filename (int i + 1) ?ln"
    using i by (simp add: filter_line_detect_issues)
  also have "\<dots> = [style_issue filename (int i + 1) ?ln, todo_issue filename (int i + 1) ?ln,
       print_issue filename (int i + 1) ?ln]"
    using len todo pr by (rule long_todo_print_line)
  finally show "filter (\<lambda>f. line f = int i + 1) (detect_issues filename text) =
           [\<lparr>file_name = filename, line = int i + 1, category = lit ''Style'',
              message = lit ''Line length 130 exceeds 120 chars'',
              snippet = splitlines text ! i\<rparr>,
            \<lparr>file_name = filename, line = int i + 1, category = lit ''Maintainability'',
              message = lit ''TODO left in code'', snippet = splitlines text ! i\<rparr>,
            \<lparr>file_name = filename, line = int i + 1, category = lit ''BestPractice'',
              message = lit ''Avoid print in library code; prefer logging'',
              snippet = splitlines text ! i\<rparr>]"
    by (simp add: issue_defs len d lit_def)
qed

text \<open>
  A text whose second line has 130 characters and contains both markers.
\<close>

theorem C1_ordered_witness:
  "filter (\<lambda>f. line f = 2)
       (detect_issues (lit ''uploaded_code.py'')
          (lit ''x = 1'' @ 10 # lit ''print(x)  # TODO '' @ replicate 113 45)) =
     [\<lparr>file_name = lit ''uploaded_code.py'', line = 2, category = lit ''Style'',
        message = lit ''Line length 130 exceeds 120 chars'',
        snippet = lit ''print(x)  # TODO '' @ replicate 113 45\<rparr>,
      \<lparr>file_name = lit ''uploaded_code.py'', line = 2, category = lit ''Maintainability'',
        message = lit ''TODO left in code'',
        snippet = lit ''print(x)  # TODO '' @ replicate 113 45\<rparr>,
      \<lparr>file_name = lit ''uploaded_code.py'', line = 2, category = lit ''BestPractice'',
        message = lit ''Avoid print in library code; prefer logging'',
        snippet = lit ''print(x)  # TODO '' @ replicate 113 45\<rparr>]
   \<and> sorted (map line
       (detect_issues (lit ''uploaded_code.py'')
          (lit ''x = 1'' @ 10 # lit ''print(x)  # TODO '' @ replicate 113 45)))"
proof -
  let ?L = "lit ''print(x)  # TODO '' @ replicate 113 (45::nat)"
  let ?T = "lit ''x = 1'' @ 10 # ?L"
  have nb: "\<forall>x \<in> set ?L. \<not> is_linebreak x"
    by (auto simp: lit_def is_linebreak_def)
  have "splitlines ?T = lit ''x = 1'' # splitlines ?L"
    by (subst splitlines_break) (simp_all add: is_linebreak_def lit_def)
  also have "splitlines ?L = [?L]"
    using nb by (intro splitlines_last) (simp_all add: lit_def)
  finally have lines: "splitlines ?T = [lit ''x = 1'', ?L]" .
  have len: "length ?L = 130" by (simp add: lit_def)
  have "py_in (lit ''TODO'') (lit ''print(x)  # TODO '')" by (simp add: lit_def)
  then have "py_in (lit ''TODO'') ?L" by (rule py_in_append_left)
  then have todo: "\<exists>ps ss. ?L = ps @ lit ''TODO'' @ ss" by (simp only: py_in_iff)
  have "py_in (lit ''print('') (lit ''print(x)  # TODO '')" by (simp add: lit_def)
  then have "py_in (lit ''print('') ?L" by (rule py_in_append_left)
  then have pr: "\<exists>ps ss. ?L = ps @ lit ''print('' @ ss" by (simp only: py_in_iff)
  note c1 = C1_findings_ordered [of "lit ''uploaded_code.py''" ?T]
  from c1 have srt: "sorted (map line (detect_issues (lit ''uploaded_code.py'') ?T))"
    by (rule conjunct1)
  from c1 have "\<forall>i < length (splitlines ?T).
         length (splitlines ?T ! i) = 130
         \<and> (\<exists>ps ss. splitlines ?T ! i = ps @ lit ''TODO'' @ ss)
         \<and> (\<exists>ps ss. splitlines ?T ! i = ps @ lit ''print('' @ ss) \<longrightarrow>
         filter (\<lambda>f. line f = int i + 1) (detect_issues (lit ''uploaded_code.py'') ?T) =
           [\<lparr>file_name = lit ''uploaded_code.py'', line = int i + 1, category = lit ''Style'',
              message = lit ''Line length 130 exceeds 120 chars'',
              snippet = splitlines ?T ! i\<rparr>,
            \<lparr>file_name = lit ''uploaded_code.py'', line = int i + 1,
              category = lit ''Maintainability'',
              message = lit ''TODO left in code'', snippet = splitlines ?T ! i\<rparr>,
            \<lparr>file_name = lit ''uploaded_code.py'', line = int i + 1,
              category = lit ''BestPractice'',
              message = lit ''Avoid print in library code; prefer logging'',
              snippet = splitlines ?T ! i\<rparr>]"
    by (rule conjunct2 [THEN conjunct2])
  then have "1 < length (splitlines ?T) \<longrightarrow>
         length (splitlines ?T ! 1) = 130
         \<and> (\<exists>ps ss. splitlines ?T ! 1 = ps @ lit ''TODO'' @ ss)
         \<and> (\<exists>ps ss. splitlines ?T ! 1 = ps @ lit ''print('' @ ss) \<longrightarrow>
         filter (\<lambda>f. line f = int 1 + 1) (detect_issues (lit ''uploaded_code.py'') ?T) =
           [\<lparr>file_name = lit ''uploaded_code.py'', line = int 1 + 1, category = lit ''Style'',
              message = lit ''Line length 130 exceeds 120 chars'',
              snippet = splitlines ?T ! 1\<rparr>,
            \<lparr>file_name = lit ''uploaded_code.py'', line = int 1 + 1,
              category = lit ''Maintainability'',
              message = lit ''TODO left in code'', snippet = splitlines ?T ! 1\<rparr>,
            \<lparr>file_name = lit ''uploaded_code.py'', line = int 1 + 1,
              category = lit ''BestPractice'',
              message = lit ''Avoid print in library code; prefer logging'',
              snippet = splitlines ?T ! 1\<rparr>]"
    by (rule spec)
  then have "filter (\<lambda>f. line f = 2) (detect_issues (lit ''uploaded_code.py'') ?T) =
     [\<lparr>file_name = lit ''uploaded_code.py'', line = 2, category = lit ''Style'',
        message = lit ''Line length 130 exceeds 120 chars'', snippet = ?L\<rparr>,
      \<lparr>file_name = lit ''uploaded_code.py'', line = 2, category = lit ''Maintainability'',
        message = lit ''TODO left in code'', snippet = ?L\<rparr>,
      \<lparr>file_name = lit ''uploaded_code.py'', line = 2, category = lit ''BestPractice'',
        message = lit ''Avoid print in library code; prefer logging'', snippet = ?L\<rparr>]"
    unfolding lines using len todo pr by simp
  with srt show ?thesis by (rule conjI [rotated])
qed

section \<open>Snippet and file of a finding\<close>

text \<open>
  Claim C8. Every finding carries the file name that was passed in, and its snippet is
  the line of the split text that its line number names. That line is the original text
  of the line, untrimmed and untruncated: it occurs in the input between two line
  boundaries (or the ends of the input) and contains no line boundary itself.
\<close>

theorem C8_snippet_is_original_line:
  "\<forall>f \<in> set (detect_issues filename text).
       file_name f = filename
     \<and> 1 \<le> line f \<and> line f \<le> int (length (splitlines text))
     \<and> snippet f = splitlines text ! nat (line f - 1)
     \<and> list_all (\<lambda>c. \<not> is_linebreak c) (snippet f)
     \<and> (\<exists>ps ss. text = ps @ snippet f @ ss
            \<and> (ps = [] \<or> is_linebreak (last ps)) \<and> (ss = [] \<or> is_linebreak (hd ss)))"
proof
  fix f assume f: "f \<in> set (detect_issues filename text)"
  note fl = detect_issues_fields [OF f]
  have "nat (line f - 1) < length (splitlines text)" using fl(1,2) by simp
  then have "splitlines text ! nat (line f - 1) \<in> set (splitlines text)" by (rule nth_mem)
  then have mem: "snippet f \<in> set (splitlines text)" by (simp only: fl(4))
  have "list_all (\<lambda>c. \<not> is_linebreak c) (snippet f)"
    using splitlines_no_linebreak [OF mem] by (simp add: list_all_iff)
  moreover note splitlines_segment [OF mem]
  ultimately show "file_name f = filename
     \<and> 1 \<le> line f \<and> line f \<le> int (length (splitlines text))
     \<and> snippet f = splitlines text ! nat (line f - 1)
     \<and> list_all (\<lambda>c. \<not> is_linebreak c) (snippet f)
     \<and> (\<exists>ps ss. text = ps @ snippet f @ ss
            \<and> (ps = [] \<or> is_linebreak (last ps)) \<and> (ss = [] \<or> is_linebreak (hd ss)))"
    using fl(1,2,3,4) by blast
qed

text \<open>
  The leading and trailing blanks of a line are kept in the snippet.
\<close>

theorem C8_snippet_witness:
  "hd (detect_issues (lit ''uploaded_code.py'') (lit ''   print(x)   '' @ 13 # 10 # lit ''y''))
     \<in> set (detect_issues (lit ''uploaded_code.py'') (lit ''   print(x)   '' @ 13 # 10 # lit ''y''))
   \<and> file_name (hd (detect_issues (lit ''uploaded_code.py'')
          (lit ''   print(x)   '' @ 13 # 10 # lit ''y''))) = lit ''uploaded_code.py''
   \<and> snippet (hd (detect_issues (lit ''uploaded_code.py'')
          (lit ''   print(x)   '' @ 13 # 10 # lit ''y''))) = lit ''   print(x)   ''"
proof -
  let ?F = "lit ''uploaded_code.py''"
  let ?T = "lit ''   print(x)   '' @ 13 # 10 # lit ''y''"
  let ?D = "detect_issues ?F ?T"
  have lines: "splitlines ?T = [lit ''   print(x)   '', lit ''y'']"
    by (simp add: splitlines.simps is_linebreak_def lit_def)
  have l1: "line_issues ?F 1 (lit ''   print(x)   '') = [print_issue ?F 1 (lit ''   print(x)   '')]"
    by (simp add: line_issues_def loop_body_def lit_def re_match_def bare_except_rx_def
        is_space_def issue_defs)
  have l2: "line_issues ?F (1 + 1) (lit ''y'') = []"
    by (simp add: line_issues_def loop_body_def lit_def re_match_def bare_except_rx_def
        is_space_def)
  have fs: "?D = [print_issue ?F 1 (lit ''   print(x)   '')]"
    unfolding detect_issues_def lines detect_loop_Cons l1 l2 by simp
  have mem: "hd ?D \<in> set ?D" by (simp add: fs)
  have ln: "line (hd ?D) = 1" by (simp add: fs print_issue_def)
  have "file_name (hd ?D) = ?F
     \<and> 1 \<le> line (hd ?D) \<and> line (hd ?D) \<le> int (length (splitlines ?T))
     \<and> snippet (hd ?D) = splitlines ?T ! nat (line (hd ?D) - 1)
     \<and> list_all (\<lambda>c. \<not> is_linebreak c) (snippet (hd ?D))
     \<and> (\<exists>ps ss. ?T = ps @ snippet (hd ?D) @ ss
            \<and> (ps = [] \<or> is_linebreak (last ps)) \<and> (ss = [] \<or> is_linebreak (hd ss)))"
    using C8_snippet_is_original_line [of ?F ?T] mem by (rule bspec)
  then have "file_name (hd ?D) = ?F" "snippet (hd ?D) = lit ''   print(x)   ''"
    by (simp_all add: ln lines)
  with mem show ?thesis by simp
qed

section \<open>The lines that are scanned\<close>

text \<open>
  Claim C6, as the code has it. The analyzer runs its loop body once on each line of the
  split text, in order and numbered from 1, and on nothing else. When the only line
  boundaries in the text are the newline LF and the pair CR LF, there are as many such
  lines as the text has newline-delimited segments; when LF is the only boundary, the
  lines are these segments. For every text the number of lines scanned is the number of
  line boundaries in it (CR LF counting as one), plus one if the text does not end in a
  boundary; it is never below the number of newline-delimited segments. No scanned line
  retains a line terminator, and the empty text yields no finding.
\<close>

theorem C6_lines_scanned:
  "detect_issues filename text =
     concat (map (\<lambda>k. loop_body filename (int k + 1) (splitlines text ! k) [])
       [0..<length (splitlines text)])
   \<and> (only_lf_and_crlf text \<longrightarrow>
        length (splitlines text) = length (spec_newline_segments text))
   \<and> ((\<forall>c \<in> set text. is_linebreak c \<longrightarrow> c = 10) \<longrightarrow>
       splitlines text = spec_newline_segments text
       \<and> length (splitlines text) = length (spec_newline_segments text))
   \<and> length (splitlines text) =
       count_line_boundaries text + (if text = [] \<or> is_linebreak (last text) then 0 else 1)
   \<and> length (spec_newline_segments text) \<le> length (splitlines text)
   \<and> (\<forall>ln \<in> set (splitlines text). list_all (\<lambda>c. \<not> is_linebreak c) ln)
   \<and> detect_issues filename [] = []"
proof (intro conjI impI ballI)
  show "detect_issues filename text =
     concat (map (\<lambda>k. loop_body filename (int k + 1) (splitlines text ! k) [])
       [0..<length (splitlines text)])"
    by (simp add: detect_issues_def detect_loop_concat add.commute)
next
  assume "only_lf_and_crlf text"
  then show "length (splitlines text) = length (spec_newline_segments text)"
    by (rule length_splitlines_lf_crlf)
next
  assume h: "\<forall>c \<in> set text. is_linebreak c \<longrightarrow> c = 10"
  then show eq: "splitlines text = spec_newline_segments text"
    by (rule splitlines_newline_segments)
  then show "length (splitlines text) = length (spec_newline_segments text)" by simp
next
  show "length (splitlines text) =
       count_line_boundaries text + (if text = [] \<or> is_linebreak (last text) then 0 else 1)"
    by (rule length_splitlines_boundaries)
next
  show "length (spec_newline_segments text) \<le> length (splitlines text)"
    by (rule newline_segments_le_splitlines)
next
  fix ln assume "ln \<in> set (splitlines text)"
  then show "list_all (\<lambda>c. \<not> is_linebreak c) ln"
    using splitlines_no_linebreak by (auto simp: list_all_iff)
next
  show "detect_issues filename [] = []" by (simp add: detect_issues_def)
qed

text \<open>
  A text with CR LF line ends has two lines and two newline-delimited segments; the
  end-to-end example has three lines, which are its three segments.
\<close>

theorem C6_lines_scanned_witness:
  "only_lf_and_crlf (lit ''x = 1'' @ 13 # 10 # lit ''# TODO'' @ [13, 10])
   \<and> length (splitlines (lit ''x = 1'' @ 13 # 10 # lit ''# TODO'' @ [13, 10])) = 2
   \<and> length (spec_newline_segments (lit ''x = 1'' @ 13 # 10 # lit ''# TODO'' @ [13, 10])) = 2
   \<and> count_line_boundaries (lit ''x = 1'' @ 13 # 10 # lit ''# TODO'' @ [13, 10]) = 2
   \<and> splitlines example_text = spec_newline_segments example_text
   \<and> length (spec_newline_segments example_text) = 3
   \<and> list_all (\<lambda>c. \<not> is_linebreak c) (hd (splitlines example_text))"
proof -
  let ?T = "lit ''x = 1'' @ 13 # 10 # lit ''# TODO'' @ [13, 10]"
  have o: "only_lf_and_crlf ?T" by (simp add: lit_def is_linebreak_def)
  have segs: "length (spec_newline_segments ?T) = 2" by (simp add: lit_def)
  note t = C6_lines_scanned [of "lit ''uploaded_code.py''" ?T]
  from t o have len: "length (splitlines ?T) = length (spec_newline_segments ?T)" by blast
  from t have "length (splitlines ?T) =
       count_line_boundaries ?T + (if ?T = [] \<or> is_linebreak (last ?T) then 0 else 1)"
    by blast
  then have cnt: "count_line_boundaries ?T = 2"
    using len segs by (simp add: is_linebreak_def)
  have h: "\<forall>c \<in> set example_text. is_linebreak c \<longrightarrow> c = 10"
    by (simp add: example_text_def lit_def is_linebreak_def)
  note c6 = C6_lines_scanned [of "lit ''uploaded_code.py''" example_text]
  from c6 h have eq: "splitlines example_text = spec_newline_segments example_text" by blast
  have mem: "hd (splitlines example_text) \<in> set (splitlines example_text)"
    by (simp add: example_lines)
  from c6 have "\<forall>ln \<in> set (splitlines example_text). list_all (\<lambda>c. \<not> is_linebreak c) ln"
    by blast
  then have nl: "list_all (\<lambda>c. \<not> is_linebreak c) (hd (splitlines example_text))"
    using mem by (rule bspec)
  have "length (spec_newline_segments example_text) = 3"
    using eq [symmetric] by (simp add: example_lines)
  with o len segs cnt eq nl show ?thesis by simp
qed

text \<open>
  Claim C6 as stated, refuted. A form feed is no newline, but \<^verbatim>\<open>splitlines\<close> breaks the
  line there: a text without any newline, hence of one newline-delimited segment, is
  scanned as two lines, and the finding is reported for line 2.
\<close>

theorem C6_form_feed_counterexample:
  "length (splitlines (lit ''x'' @ 12 # lit ''TODO'')) = 2
   \<and> length (spec_newline_segments (lit ''x'' @ 12 # lit ''TODO'')) = 1
   \<and> map line (detect_issues (lit ''uploaded_code.py'') (lit ''x'' @ 12 # lit ''TODO'')) = [2]"
proof -
  let ?F = "lit ''uploaded_code.py''"
  let ?T = "lit ''x'' @ 12 # lit ''TODO''"
  have lines: "splitlines ?T = [lit ''x'', lit ''TODO'']"
    by (simp add: splitlines.simps is_linebreak_def lit_def)
  have segs: "spec_newline_segments ?T = [?T]" by (simp add: lit_def)
  have l1: "line_issues ?F 1 (lit ''x'') = []"
    by (simp add: line_issues_def loop_body_def lit_def re_match_def bare_except_rx_def
        is_space_def)
  have l2: "line_issues ?F (1 + 1) (lit ''TODO'') = [todo_issue ?F (1 + 1) (lit ''TODO'')]"
    by (simp add: line_issues_def loop_body_def lit_def re_match_def bare_except_rx_def
        is_space_def issue_defs)
  have "detect_issues ?F ?T = [todo_issue ?F (1 + 1) (lit ''TODO'')]"
    unfolding detect_issues_def lines detect_loop_Cons l1 l2 by simp
  then have "map line (detect_issues ?F ?T) = [2]" by (simp add: todo_issue_def)
  then show ?thesis by (simp add: lines segs)
qed

end
